theory Spec2Isabelle
  imports Complex_Main "HOL-Library.Word"
begin

section \<open>Data model of \<open>script.js\<close>\<close>

text \<open>
  A JavaScript string is a sequence of UTF-16 code units. The text of a task and the
  value of the input box are such strings; the notification messages and the ISO
  time stamps are ASCII constants and are kept as HOL strings.
\<close>

type_synonym js_string = "16 word list"

text \<open>
  \<open>String.prototype.trim\<close> removes the ECMAScript white space and line terminator
  code points from both ends.
\<close>

definition is_whitespace :: "16 word \<Rightarrow> bool" where
  "is_whitespace c \<longleftrightarrow>
     c = 0x0009 \<or> c = 0x000A \<or> c = 0x000B \<or> c = 0x000C \<or> c = 0x000D \<or>
     c = 0x0020 \<or> c = 0x00A0 \<or> c = 0x1680 \<or> (0x2000 \<le> c \<and> c \<le> 0x200A) \<or>
     c = 0x2028 \<or> c = 0x2029 \<or> c = 0x202F \<or> c = 0x205F \<or> c = 0x3000 \<or>
     c = 0xFEFF"

definition trim :: "js_string \<Rightarrow> js_string" where
  "trim s = rev (dropWhile is_whitespace (rev (dropWhile is_whitespace s)))"

datatype sync_status = Synced | Pending

text \<open>The object literal of \<open>addTodo\<close> (lines 193-200); \<open>id\<close> is \<open>Date.now()\<close>.\<close>

record task =
  id_t :: int
  text_t :: js_string
  completed :: bool
  createdAt :: string
  lastModified :: string
  syncStatus :: sync_status

datatype action = Create | Update | Delete

text \<open>
  The \<open>data\<close> of a queue entry is the todo object itself for \<open>create\<close> and \<open>update\<close>
  (the entry and the collection share the object) and a fresh object \<open>{ id }\<close> for
  \<open>delete\<close>. In memory the parameter is an address of the object store; in
  \<open>localStorage\<close>, after \<open>JSON.stringify\<close>, it is the object's value.
\<close>

datatype 'r data = Todo 'r | IdOnly int

text \<open>The object literal of \<open>addToPendingSync\<close> (lines 294-299).\<close>

record 'r syncItem =
  id_i :: rat
  action :: action
  data :: "'r data"
  timestamp :: string

datatype kind = Info | Success | Error

record response =
  success :: bool

text \<open>How the promise of a remote call settles: \<open>await\<close> returns or throws.\<close>

datatype outcome = Fulfilled response | Rejected

text \<open>
  A remote call whose delay has not elapsed yet. \<open>Loose\<close> is a call nobody awaits
  (the online branch of the mutation handlers). \<open>Awaited item arr i\<close> is an
  activation of \<open>syncData\<close> suspended at line 315: \<open>item\<close> is the loop variable,
  \<open>arr\<close> the array object the \<open>for...of\<close> iterator walks and \<open>i\<close> the index the
  iterator reads next.
\<close>

datatype inflight = Loose action "nat data" | Awaited "nat syncItem" nat nat

text \<open>
  The fields of \<open>OfflineTodoApp\<close> and what the handlers reach from them. Todo objects
  live in \<open>heap\<close>, the arrays that were ever bound to \<open>this.pendingSync\<close> in
  \<open>arrays\<close>; \<open>this.todos\<close> is referenced by the app only and is a list of
  addresses. \<open>ls_todos\<close> and \<open>ls_pendingSync\<close> are the two keys of
  \<open>localStorage\<close> (\<open>None\<close>: key absent), \<open>ls_full\<close> says that \<open>setItem\<close> throws
  (quota exceeded). \<open>notifications\<close> lists the calls of \<open>showNotification\<close>,
  \<open>api_issued\<close> the remote calls made, \<open>api_log\<close> those whose delay elapsed
  (line 347). Rendering and the statistics line are functions of these fields and
  are not part of the state.
\<close>

record app =
  heap :: "nat \<Rightarrow> task"
  next_addr :: nat
  todos :: "nat list"
  arrays :: "nat \<Rightarrow> nat syncItem list"
  next_arr :: nat
  pendingSync :: nat
  isOnline :: bool
  editingId :: "int option"
  todoInput :: js_string
  syncIndicator :: bool
  notifications :: "(string \<times> kind) list"
  ls_todos :: "task list option"
  ls_pendingSync :: "task syncItem list option"
  ls_full :: bool
  api_issued :: "(action \<times> nat data) list"
  api_log :: "(action \<times> nat data) list"
  inflight :: "inflight list"

text \<open>
  What a handler reads from the environment: \<open>Date.now()\<close> and the two
  \<open>new Date().toISOString()\<close> of the handler, then \<open>Date.now()\<close>,
  \<open>Math.random()\<close> and \<open>new Date().toISOString()\<close> of \<open>addToPendingSync\<close>.
  Line 295 adds the two numbers as doubles and rounds the sum; \<open>item_random\<close> is
  the random number as it survives that addition, the rounded sum less
  \<open>Date.now()\<close>, so that the entry id is \<open>item_now + item_random\<close> exactly.
\<close>

record readings =
  now :: int
  created_iso :: string
  modified_iso :: string
  item_now :: int
  item_random :: rat
  item_iso :: string

section \<open>Operations\<close>

definition queue :: "app \<Rightarrow> nat syncItem list" where
  "queue s = arrays s (pendingSync s)"

fun data_id :: "(nat \<Rightarrow> task) \<Rightarrow> nat data \<Rightarrow> int" where
  "data_id h (Todo a) = id_t (h a)"
| "data_id h (IdOnly i) = i"

definition stringify_item :: "(nat \<Rightarrow> task) \<Rightarrow> nat syncItem \<Rightarrow> task syncItem" where
  "stringify_item h it =
     \<lparr>id_i = id_i it, action = action it, data = map_data h (data it),
      timestamp = timestamp it\<rparr>"

definition saveTodos :: "app \<Rightarrow> app" where
  "saveTodos s =
     (if ls_full s then s else s\<lparr>ls_todos := Some (map (heap s) (todos s))\<rparr>)"

definition savePendingSync :: "app \<Rightarrow> app" where
  "savePendingSync s =
     (if ls_full s then s
      else s\<lparr>ls_pendingSync := Some (map (stringify_item (heap s)) (queue s))\<rparr>)"

definition addToPendingSync :: "readings \<Rightarrow> action \<Rightarrow> nat data \<Rightarrow> app \<Rightarrow> app" where
  "addToPendingSync r a d s =
     (let syncItem = \<lparr>id_i = of_int (item_now r) + item_random r, action = a, data = d,
                      timestamp = item_iso r\<rparr>
      in savePendingSync
           (s\<lparr>arrays := (arrays s)(pendingSync s := queue s @ [syncItem])\<rparr>))"

text \<open>
  \<open>simulateApiCall\<close> (lines 344-349): the call starts a 500 ms timer; when it
  elapses the call is logged and the promise is fulfilled with \<open>{ success: true }\<close>.
\<close>

definition simulateApiCall :: "action \<Rightarrow> nat data \<Rightarrow> outcome" where
  "simulateApiCall a d = Fulfilled \<lparr>success = True\<rparr>"

definition call_unawaited :: "action \<Rightarrow> nat data \<Rightarrow> app \<Rightarrow> app" where
  "call_unawaited a d s =
     s\<lparr>api_issued := api_issued s @ [(a, d)], inflight := inflight s @ [Loose a d]\<rparr>"

definition find_todo :: "(nat \<Rightarrow> task) \<Rightarrow> nat list \<Rightarrow> int \<Rightarrow> nat option" where
  "find_todo h ts i = find (\<lambda>a. id_t (h a) = i) ts"

definition connectivity_status :: "bool \<Rightarrow> sync_status" where
  "connectivity_status online = (if online then Synced else Pending)"

definition addTodo :: "readings \<Rightarrow> app \<Rightarrow> app" where
  "addTodo r s =
     (let text = trim (todoInput s) in
      if text = [] then s
      else
        let a = next_addr s;
            todo = \<lparr>id_t = now r, text_t = text, completed = False,
                    createdAt = created_iso r, lastModified = modified_iso r,
                    syncStatus = connectivity_status (isOnline s)\<rparr>;
            s1 = s\<lparr>heap := (heap s)(a := todo), next_addr := Suc a,
                   todos := a # todos s, todoInput := []\<rparr>;
            s2 = (if \<not> isOnline s1 then addToPendingSync r Create (Todo a) s1 else s1);
            s3 = saveTodos s2
        in if isOnline s3 then call_unawaited Create (Todo a) s3 else s3)"

definition toggleTodo :: "int \<Rightarrow> readings \<Rightarrow> app \<Rightarrow> app" where
  "toggleTodo i r s =
     (case find_todo (heap s) (todos s) i of
        None \<Rightarrow> s
      | Some a \<Rightarrow>
          let todo = (heap s a)\<lparr>completed := \<not> completed (heap s a),
                                lastModified := modified_iso r,
                                syncStatus := connectivity_status (isOnline s)\<rparr>;
              s1 = s\<lparr>heap := (heap s)(a := todo)\<rparr>;
              s2 = (if \<not> isOnline s1 then addToPendingSync r Update (Todo a) s1 else s1);
              s3 = saveTodos s2
          in if isOnline s3 then call_unawaited Update (Todo a) s3 else s3)"

definition deleteTodo :: "int \<Rightarrow> readings \<Rightarrow> app \<Rightarrow> app" where
  "deleteTodo i r s =
     (case find_todo (heap s) (todos s) i of
        None \<Rightarrow> s
      | Some a \<Rightarrow>
          let s1 = s\<lparr>todos := filter (\<lambda>b. id_t (heap s b) \<noteq> i) (todos s)\<rparr>;
              s2 = (if \<not> isOnline s1 then addToPendingSync r Delete (IdOnly i) s1 else s1);
              s3 = saveTodos s2
          in if isOnline s3 then call_unawaited Delete (IdOnly i) s3 else s3)"

definition startEdit :: "int \<Rightarrow> app \<Rightarrow> app" where
  "startEdit i s = s\<lparr>editingId := Some i\<rparr>"

definition saveEdit :: "int \<Rightarrow> js_string \<Rightarrow> readings \<Rightarrow> app \<Rightarrow> app" where
  "saveEdit i newText r s =
     (case find_todo (heap s) (todos s) i of
        None \<Rightarrow> s
      | Some a \<Rightarrow>
          if trim newText = [] then s
          else
            let todo = (heap s a)\<lparr>text_t := trim newText,
                                  lastModified := modified_iso r,
                                  syncStatus := connectivity_status (isOnline s)\<rparr>;
                s1 = s\<lparr>heap := (heap s)(a := todo), editingId := None\<rparr>;
                s2 = (if \<not> isOnline s1 then addToPendingSync r Update (Todo a) s1 else s1);
                s3 = saveTodos s2
            in if isOnline s3 then call_unawaited Update (Todo a) s3 else s3)"

definition cancelEdit :: "app \<Rightarrow> app" where
  "cancelEdit s = s\<lparr>editingId := None\<rparr>"

definition showNotification :: "string \<Rightarrow> kind \<Rightarrow> app \<Rightarrow> app" where
  "showNotification message k s = s\<lparr>notifications := notifications s @ [(message, k)]\<rparr>"

definition showSyncIndicator :: "bool \<Rightarrow> app \<Rightarrow> app" where
  "showSyncIndicator show s = s\<lparr>syncIndicator := show\<rparr>"

subsection \<open>The drain: \<open>syncData\<close> (lines 307-342)\<close>

text \<open>
  Lines 318-319: the todo the loop body looks up for an entry. A number is truthy
  when it is not zero; \<open>find\<close> returns the first todo with the id.
\<close>

definition matched_todo :: "(nat \<Rightarrow> task) \<Rightarrow> nat list \<Rightarrow> nat syncItem \<Rightarrow> nat option" where
  "matched_todo h ts it =
     (if data_id h (data it) \<noteq> 0 then find_todo h ts (data_id h (data it)) else None)"

text \<open>Lines 318-323.\<close>

definition mark_synced :: "nat list \<Rightarrow> (nat \<Rightarrow> task) \<Rightarrow> nat syncItem \<Rightarrow> nat \<Rightarrow> task" where
  "mark_synced ts h it =
     (case matched_todo h ts it of
        None \<Rightarrow> h
      | Some a \<Rightarrow> h(a := (h a)\<lparr>syncStatus := Synced\<rparr>))"

text \<open>Lines 326-334 and the \<open>finally\<close> block: the loop has run off the end of its array.\<close>

definition drain_completed :: "app \<Rightarrow> app" where
  "drain_completed s =
     (let s1 = s\<lparr>pendingSync := next_arr s, arrays := (arrays s)(next_arr s := []),
                 next_arr := Suc (next_arr s)\<rparr>;
          s2 = savePendingSync s1;
          s3 = saveTodos s2;
          s4 = showNotification ''Sync completed successfully!'' Success s3
      in showSyncIndicator False s4)"

text \<open>
  One step of the \<open>for...of\<close> iterator over the array object \<open>arr\<close>: when index \<open>i\<close>
  is inside the array as it is now, the entry is bound to the loop variable, the
  remote call is made and the activation suspends; otherwise the loop is over.
\<close>

definition iterate :: "nat \<Rightarrow> nat \<Rightarrow> app \<Rightarrow> app" where
  "iterate arr i s =
     (if i < length (arrays s arr) then
        let item = arrays s arr ! i
        in s\<lparr>api_issued := api_issued s @ [(action item, data item)],
             inflight := inflight s @ [Awaited item arr (Suc i)]\<rparr>
      else drain_completed s)"

definition syncData :: "app \<Rightarrow> app" where
  "syncData s =
     (if \<not> isOnline s \<or> length (queue s) = 0 then s
      else iterate (pendingSync s) 0 (showSyncIndicator True s))"

text \<open>Lines 336-340: the awaited call threw.\<close>

definition drain_failed :: "app \<Rightarrow> app" where
  "drain_failed s =
     showSyncIndicator False (showNotification ''Sync failed. Will retry later.'' Error s)"

definition remove_nth :: "nat \<Rightarrow> 'a list \<Rightarrow> 'a list" where
  "remove_nth k xs = take k xs @ drop (Suc k) xs"

text \<open>
  The promise of the \<open>k\<close>-th call in flight settles. A call nobody awaits only logs.
  An awaited call resumes its activation of \<open>syncData\<close>: on rejection the \<open>catch\<close>
  and \<open>finally\<close> blocks run, on fulfilment the rest of the loop body and the next
  step of the iterator. The value the promise is fulfilled with is not read.
\<close>

definition settle :: "nat \<Rightarrow> outcome \<Rightarrow> app \<Rightarrow> app" where
  "settle k out s =
     (if k < length (inflight s) then
        let s0 = s\<lparr>inflight := remove_nth k (inflight s)\<rparr> in
        case inflight s ! k of
          Loose a d \<Rightarrow>
            (case out of
               Fulfilled v \<Rightarrow> s0\<lparr>api_log := api_log s0 @ [(a, d)]\<rparr>
             | Rejected \<Rightarrow> s0)
        | Awaited item arr i \<Rightarrow>
            (case out of
               Fulfilled v \<Rightarrow>
                 let s1 = s0\<lparr>api_log := api_log s0 @ [(action item, data item)]\<rparr>;
                     s2 = s1\<lparr>heap := mark_synced (todos s1) (heap s1) item\<rparr>
                 in iterate arr i s2
             | Rejected \<Rightarrow> drain_failed s0)
      else s)"

text \<open>
  \<open>syncData\<close> called with nothing else happening until it is over. The activation
  it starts is the last call in flight, at index \<open>n\<close>, the number of calls in flight
  before; each outcome of the list settles the call that activation is waiting for.
  When the list runs out the activation is still suspended (a call that never
  settles blocks the drain).
\<close>

definition awaiting :: "app \<Rightarrow> bool" where
  "awaiting s =
     (case rev (inflight s) of Awaited item arr i # rest \<Rightarrow> True | _ \<Rightarrow> False)"

fun resume_all :: "nat \<Rightarrow> outcome list \<Rightarrow> app \<Rightarrow> app" where
  "resume_all n [] s = s"
| "resume_all n (out # outs) s =
     (if length (inflight s) = Suc n \<and> awaiting s
      then resume_all n outs (settle n out s) else s)"

definition syncData_run :: "outcome list \<Rightarrow> app \<Rightarrow> app" where
  "syncData_run outs s = resume_all (length (inflight s)) outs (syncData s)"

subsection \<open>Events\<close>

text \<open>
  \<open>doConnectivityCheck\<close> (lines 132-159) from the point where the \<open>fetch\<close> is
  over: it answered, with \<open>response.ok\<close> as given, or it threw (time-out, network
  error).
\<close>

datatype fetch_result = Response bool | Threw

definition doConnectivityCheck :: "fetch_result \<Rightarrow> app \<Rightarrow> app" where
  "doConnectivityCheck res s =
     (case res of
        Response ok \<Rightarrow>
          if ok \<and> \<not> isOnline s then syncData (s\<lparr>isOnline := True\<rparr>) else s
      | Threw \<Rightarrow> if isOnline s then s\<lparr>isOnline := False\<rparr> else s)"

text \<open>The listeners of lines 113-124.\<close>

definition browser_online :: "app \<Rightarrow> app" where
  "browser_online s = syncData (s\<lparr>isOnline := True\<rparr>)"

definition browser_offline :: "app \<Rightarrow> app" where
  "browser_offline s = s\<lparr>isOnline := False\<rparr>"

text \<open>
  Everything that runs a piece of the program within one page session: the user's
  actions, the connectivity signals, the sync button (and the timer of line 543,
  which makes the same call), the end of the delay of the \<open>k\<close>-th remote call in
  flight, and the storage filling up or being freed. Each handler runs to its end
  or to its next \<open>await\<close> before another event is handled. The clear-cache
  button (lines 351-372), which empties the storage and reloads the page, and the
  reload itself are not among the events.
\<close>

datatype event =
    TypeInput js_string
  | AddClick readings
  | ToggleChange int readings
  | DeleteClick int readings
  | StartEditClick int
  | SaveClick int js_string readings
  | CancelClick
  | BrowserOnline
  | BrowserOffline
  | ProbeAnswered bool
  | ProbeThrew
  | SyncClick
  | DelayElapsed nat
  | StorageFull bool

definition call_entry :: "nat syncItem \<Rightarrow> action \<times> nat data" where
  "call_entry item = (action item, data item)"

definition call_of :: "inflight \<Rightarrow> action \<times> nat data" where
  "call_of c = (case c of Loose a d \<Rightarrow> (a, d) | Awaited item arr i \<Rightarrow> (action item, data item))"

fun step :: "app \<Rightarrow> event \<Rightarrow> app" where
  "step s (TypeInput v) = s\<lparr>todoInput := v\<rparr>"
| "step s (AddClick r) = addTodo r s"
| "step s (ToggleChange i r) = toggleTodo i r s"
| "step s (DeleteClick i r) = deleteTodo i r s"
| "step s (StartEditClick i) = startEdit i s"
| "step s (SaveClick i v r) = saveEdit i v r s"
| "step s CancelClick = cancelEdit s"
| "step s BrowserOnline = browser_online s"
| "step s BrowserOffline = browser_offline s"
| "step s (ProbeAnswered ok) = doConnectivityCheck (Response ok) s"
| "step s ProbeThrew = doConnectivityCheck Threw s"
| "step s SyncClick = syncData s"
| "step s (DelayElapsed k) =
     (if k < length (inflight s)
      then settle k (case call_of (inflight s ! k) of (a, d) \<Rightarrow> simulateApiCall a d) s
      else s)"
| "step s (StorageFull b) = s\<lparr>ls_full := b\<rparr>"

definition run :: "app \<Rightarrow> event list \<Rightarrow> app" where
  "run s evs = foldl step s evs"

text \<open>
  The state the constructor builds when \<open>localStorage\<close> holds neither key;
  \<open>online\<close> is \<open>navigator.onLine\<close>. An address that was never allocated is never
  read; it holds \<open>blank\<close>.
\<close>

definition blank :: task where
  "blank = \<lparr>id_t = 0, text_t = [], completed = False, createdAt = [], lastModified = [],
            syncStatus = Synced\<rparr>"

definition fresh :: "bool \<Rightarrow> app" where
  "fresh online =
     \<lparr>heap = (\<lambda>a. blank), next_addr = 0, todos = [],
      arrays = (\<lambda>a. []), next_arr = 1, pendingSync = 0,
      isOnline = online, editingId = None, todoInput = [],
      syncIndicator = False, notifications = [],
      ls_todos = None, ls_pendingSync = None, ls_full = False,
      api_issued = [], api_log = [], inflight = []\<rparr>"

subsection \<open>Drains that are not interrupted\<close>

text \<open>
  The outcomes this repository's client gives for the entries of a queue, and an
  event after which the drain it may have started runs to its end before the next
  event is handled.
\<close>

definition client_outcomes :: "nat syncItem list \<Rightarrow> outcome list" where
  "client_outcomes q = map (\<lambda>item. simulateApiCall (action item) (data item)) q"

definition step_quiet :: "app \<Rightarrow> event \<Rightarrow> app" where
  "step_quiet s ev =
     (let s' = step s ev
      in resume_all (length (inflight s)) (client_outcomes (queue s')) s')"

definition run_quiet :: "app \<Rightarrow> event list \<Rightarrow> app" where
  "run_quiet s evs = foldl step_quiet s evs"

subsection \<open>Observations\<close>

definition ids :: "app \<Rightarrow> int list" where
  "ids s = map (\<lambda>a. id_t (heap s a)) (todos s)"

definition queue_ids :: "app \<Rightarrow> int list" where
  "queue_ids s = map (\<lambda>item. data_id (heap s) (data item)) (queue s)"

text \<open>The status of every task says whether the queue holds an entry with its id.\<close>

definition status_consistent :: "app \<Rightarrow> bool" where
  "status_consistent s \<longleftrightarrow>
     (\<forall>a \<in> set (todos s).
        (syncStatus (heap s a) = Pending) = (id_t (heap s a) \<in> set (queue_ids s)))"

fun is_drain :: "inflight \<Rightarrow> bool" where
  "is_drain (Awaited item arr i) = True"
| "is_drain (Loose a d) = False"

definition drains_running :: "app \<Rightarrow> nat" where
  "drains_running s = length (filter is_drain (inflight s))"

text \<open>Every todo of the collection lies below the allocation pointer.\<close>

definition allocated :: "app \<Rightarrow> bool" where
  "allocated s \<longleftrightarrow> (\<forall>a \<in> set (todos s). a < next_addr s)"

text \<open>
  What holds between drains: the addresses in use are allocated, ids are distinct
  and not zero, no activation of \<open>syncData\<close> is suspended, statuses agree with the
  queue, and online the queue is empty.
\<close>

definition refs_allocated :: "app \<Rightarrow> bool" where
  "refs_allocated s \<longleftrightarrow>
     (\<forall>item \<in> set (queue s). \<forall>a. data item = Todo a \<longrightarrow> a < next_addr s)"

definition wellformed :: "app \<Rightarrow> bool" where
  "wellformed s \<longleftrightarrow>
     allocated s \<and> refs_allocated s \<and> distinct (ids s) \<and> 0 \<notin> set (ids s) \<and>
     (\<forall>c \<in> set (inflight s). \<not> is_drain c) \<and> status_consistent s"

definition settled :: "app \<Rightarrow> bool" where
  "settled s \<longleftrightarrow> wellformed s \<and> (isOnline s \<longrightarrow> queue s = [])"

text \<open>The \<open>Date.now()\<close> readings of the clicks on the add button, in order.\<close>

fun created_at :: "event list \<Rightarrow> int list" where
  "created_at [] = []"
| "created_at (AddClick r # evs) = now r # created_at evs"
| "created_at (ev # evs) = created_at evs"

definition readings_at :: "int \<Rightarrow> readings" where
  "readings_at t =
     \<lparr>now = t, created_iso = ''2026-01-01T00:00:00.000Z'',
      modified_iso = ''2026-01-01T00:00:00.000Z'', item_now = t, item_random = 1 / 2,
      item_iso = ''2026-01-01T00:00:00.000Z''\<rparr>"

text \<open>
  A state for examples: two tasks were added offline and the connectivity flag has
  just been set, as in the \<open>online\<close> listener before it calls \<open>syncData\<close>.
\<close>

definition two_queued :: app where
  "two_queued =
     (run (fresh False)
        [TypeInput [0x61], AddClick (readings_at 1000),
         TypeInput [0x62], AddClick (readings_at 2000)])\<lparr>isOnline := True\<rparr>"

section \<open>Loading from \<open>localStorage\<close> (lines 500-508 and 518-526)\<close>

text \<open>
  \<open>localStorage.getItem\<close> and \<open>JSON.parse\<close> belong to the browser and are
  parameters: \<open>getItem\<close> returns the stored text, \<open>null\<close> for an absent key, or
  throws; \<open>JSON.parse\<close> returns the value a text denotes or throws. The loaders
  return what \<open>JSON.parse\<close> returned, whatever it is.
\<close>

datatype json =
    JNull
  | JBool bool
  | JNumber rat
  | JString js_string
  | JArray "json list"
  | JObject "(js_string \<times> json) list"

datatype exn = SyntaxError | SecurityError

record platform =
  getItem :: "string \<Rightarrow> exn + js_string option"
  JSON_parse :: "js_string \<Rightarrow> exn + json"

definition load_key :: "string \<Rightarrow> platform \<Rightarrow> json" where
  "load_key key p =
     (case getItem p key of
        Inl error \<Rightarrow> JArray []
      | Inr None \<Rightarrow> JArray []
      | Inr (Some stored) \<Rightarrow>
          if stored = [] then JArray []
          else (case JSON_parse p stored of
                  Inl error \<Rightarrow> JArray []
                | Inr parsed \<Rightarrow> parsed))"

definition loadTodos :: "platform \<Rightarrow> json" where
  "loadTodos p = load_key ''todos'' p"

definition loadPendingSync :: "platform \<Rightarrow> json" where
  "loadPendingSync p = load_key ''pendingSync'' p"

text \<open>
  A browser whose storage holds the text \<open>{"a\<close> under both keys; its \<open>JSON.parse\<close>
  is given on the two texts used here.
\<close>

definition truncated_text :: js_string where
  "truncated_text = [0x7B, 0x22, 0x61]"

definition corrupt_platform :: platform where
  "corrupt_platform =
     \<lparr>getItem = (\<lambda>key. Inr (Some truncated_text)),
      JSON_parse = (\<lambda>t. if t = [0x5B, 0x5D] then Inr (JArray []) else Inl SyntaxError)\<rparr>"

text \<open>
  A browser whose storage holds well-formed JSON that is no array: the text \<open>null\<close>
  under \<open>todos\<close> and the text \<open>42\<close> under \<open>pendingSync\<close>; its \<open>JSON.parse\<close> is
  given on these two texts.
\<close>

definition null_text :: js_string where
  "null_text = [0x6E, 0x75, 0x6C, 0x6C]"

definition number_text :: js_string where
  "number_text = [0x34, 0x32]"

definition parsing_platform :: platform where
  "parsing_platform =
     \<lparr>getItem = (\<lambda>key. if key = ''todos'' then Inr (Some null_text)
                        else Inr (Some number_text)),
      JSON_parse = (\<lambda>t. if t = null_text then Inr JNull
                         else if t = number_text then Inr (JNumber 42)
                         else Inl SyntaxError)\<rparr>"

section \<open>Which fields the building blocks change\<close>

lemma saveTodos_fields [simp]:
  "heap (saveTodos s) = heap s" "next_addr (saveTodos s) = next_addr s"
  "todos (saveTodos s) = todos s" "arrays (saveTodos s) = arrays s"
  "next_arr (saveTodos s) = next_arr s" "pendingSync (saveTodos s) = pendingSync s"
  "isOnline (saveTodos s) = isOnline s" "inflight (saveTodos s) = inflight s"
  "notifications (saveTodos s) = notifications s"
  "syncIndicator (saveTodos s) = syncIndicator s"
  "api_issued (saveTodos s) = api_issued s" "api_log (saveTodos s) = api_log s"
  "ls_full (saveTodos s) = ls_full s" "queue (saveTodos s) = queue s"
  by (simp_all add: saveTodos_def queue_def)

lemma savePendingSync_fields [simp]:
  "heap (savePendingSync s) = heap s" "next_addr (savePendingSync s) = next_addr s"
  "todos (savePendingSync s) = todos s" "arrays (savePendingSync s) = arrays s"
  "next_arr (savePendingSync s) = next_arr s"
  "pendingSync (savePendingSync s) = pendingSync s"
  "isOnline (savePendingSync s) = isOnline s" "inflight (savePendingSync s) = inflight s"
  "notifications (savePendingSync s) = notifications s"
  "syncIndicator (savePendingSync s) = syncIndicator s"
  "api_issued (savePendingSync s) = api_issued s" "api_log (savePendingSync s) = api_log s"
  "ls_full (savePendingSync s) = ls_full s" "queue (savePendingSync s) = queue s"
  by (simp_all add: savePendingSync_def queue_def)

lemma addToPendingSync_fields [simp]:
  "heap (addToPendingSync r a d s) = heap s"
  "next_addr (addToPendingSync r a d s) = next_addr s"
  "todos (addToPendingSync r a d s) = todos s"
  "next_arr (addToPendingSync r a d s) = next_arr s"
  "pendingSync (addToPendingSync r a d s) = pendingSync s"
  "isOnline (addToPendingSync r a d s) = isOnline s"
  "inflight (addToPendingSync r a d s) = inflight s"
  "notifications (addToPendingSync r a d s) = notifications s"
  "syncIndicator (addToPendingSync r a d s) = syncIndicator s"
  "api_issued (addToPendingSync r a d s) = api_issued s"
  "api_log (addToPendingSync r a d s) = api_log s"
  "ls_full (addToPendingSync r a d s) = ls_full s"
  by (simp_all add: addToPendingSync_def Let_def)

lemma addToPendingSync_queue [simp]:
  "queue (addToPendingSync r a d s) =
     queue s @ [\<lparr>id_i = of_int (item_now r) + item_random r, action = a, data = d,
                 timestamp = item_iso r\<rparr>]"
  by (simp add: addToPendingSync_def Let_def queue_def)

lemma call_unawaited_fields [simp]:
  "heap (call_unawaited a d s) = heap s" "next_addr (call_unawaited a d s) = next_addr s"
  "todos (call_unawaited a d s) = todos s" "arrays (call_unawaited a d s) = arrays s"
  "next_arr (call_unawaited a d s) = next_arr s"
  "pendingSync (call_unawaited a d s) = pendingSync s"
  "isOnline (call_unawaited a d s) = isOnline s"
  "inflight (call_unawaited a d s) = inflight s @ [Loose a d]"
  "notifications (call_unawaited a d s) = notifications s"
  "syncIndicator (call_unawaited a d s) = syncIndicator s"
  "api_issued (call_unawaited a d s) = api_issued s @ [(a, d)]"
  "api_log (call_unawaited a d s) = api_log s"
  "ls_full (call_unawaited a d s) = ls_full s" "queue (call_unawaited a d s) = queue s"
  by (simp_all add: call_unawaited_def queue_def)

lemma drain_completed_fields [simp]:
  "heap (drain_completed s) = heap s" "next_addr (drain_completed s) = next_addr s"
  "todos (drain_completed s) = todos s"
  "arrays (drain_completed s) = (arrays s)(next_arr s := [])"
  "next_arr (drain_completed s) = Suc (next_arr s)"
  "pendingSync (drain_completed s) = next_arr s"
  "isOnline (drain_completed s) = isOnline s" "inflight (drain_completed s) = inflight s"
  "notifications (drain_completed s) =
     notifications s @ [(''Sync completed successfully!'', Success)]"
  "syncIndicator (drain_completed s) = False"
  "api_issued (drain_completed s) = api_issued s" "api_log (drain_completed s) = api_log s"
  "ls_full (drain_completed s) = ls_full s" "queue (drain_completed s) = []"
  by (simp_all add: drain_completed_def Let_def showNotification_def showSyncIndicator_def
      queue_def)

lemma drain_failed_fields [simp]:
  "heap (drain_failed s) = heap s" "next_addr (drain_failed s) = next_addr s"
  "todos (drain_failed s) = todos s" "arrays (drain_failed s) = arrays s"
  "next_arr (drain_failed s) = next_arr s" "pendingSync (drain_failed s) = pendingSync s"
  "isOnline (drain_failed s) = isOnline s" "inflight (drain_failed s) = inflight s"
  "notifications (drain_failed s) =
     notifications s @ [(''Sync failed. Will retry later.'', Error)]"
  "syncIndicator (drain_failed s) = False"
  "api_issued (drain_failed s) = api_issued s" "api_log (drain_failed s) = api_log s"
  "ls_full (drain_failed s) = ls_full s" "ls_todos (drain_failed s) = ls_todos s"
  "ls_pendingSync (drain_failed s) = ls_pendingSync s" "queue (drain_failed s) = queue s"
  by (simp_all add: drain_failed_def showNotification_def showSyncIndicator_def queue_def)

lemma iterate_fields [simp]:
  "heap (iterate arr i s) = heap s" "next_addr (iterate arr i s) = next_addr s"
  "todos (iterate arr i s) = todos s" "isOnline (iterate arr i s) = isOnline s"
  "api_log (iterate arr i s) = api_log s" "ls_full (iterate arr i s) = ls_full s"
  by (simp_all add: iterate_def Let_def)

lemma iterate_inside:
  "i < length (arrays s arr) \<Longrightarrow>
   iterate arr i s =
     s\<lparr>api_issued := api_issued s @ [(action (arrays s arr ! i), data (arrays s arr ! i))],
       inflight := inflight s @ [Awaited (arrays s arr ! i) arr (Suc i)]\<rparr>"
  by (simp add: iterate_def Let_def)

lemma iterate_outside:
  "\<not> i < length (arrays s arr) \<Longrightarrow> iterate arr i s = drain_completed s"
  by (simp add: iterate_def)

section \<open>Validation of the text\<close>

text \<open>
  C7. When the trimmed text is empty, \<open>addTodo\<close> and \<open>saveEdit\<close> return at once:
  the whole state (collection, todo objects, queue, both storage keys,
  notifications) is the one before the call. Both are total functions of the
  state, no branch of either raises.
\<close>

theorem empty_text_is_noop:
  "(trim (todoInput s) = [] \<longrightarrow> addTodo r s = s) \<and>
   (trim newText = [] \<longrightarrow> saveEdit i newText r s = s)"
  by (simp add: addTodo_def saveEdit_def split: option.split)

theorem empty_text_is_noop_witness:
  "trim (todoInput (run (fresh False) [TypeInput [0x61], AddClick (readings_at 1000),
                                      TypeInput [0x20, 0x09, 0xA0]])) = [] \<and>
   addTodo (readings_at 2000)
     (run (fresh False) [TypeInput [0x61], AddClick (readings_at 1000),
                         TypeInput [0x20, 0x09, 0xA0]]) =
   run (fresh False) [TypeInput [0x61], AddClick (readings_at 1000),
                      TypeInput [0x20, 0x09, 0xA0]] \<and>
   trim [0x20, 0x20, 0x20] = [] \<and>
   saveEdit 1000 [0x20, 0x20, 0x20] (readings_at 2000)
     (run (fresh False) [TypeInput [0x61], AddClick (readings_at 1000),
                         TypeInput [0x20, 0x09, 0xA0]]) =
   run (fresh False) [TypeInput [0x61], AddClick (readings_at 1000),
                      TypeInput [0x20, 0x09, 0xA0]]"
proof -
  let ?s = "run (fresh False) [TypeInput [0x61], AddClick (readings_at 1000),
                               TypeInput [0x20, 0x09, 0xA0]]"
  have input: "todoInput ?s = [0x20, 0x09, 0xA0]"
    by (simp add: run_def)
  have a: "trim (todoInput ?s) = []"
    unfolding input by (simp add: trim_def is_whitespace_def)
  have b: "trim [0x20, 0x20, 0x20] = []"
    by (simp add: trim_def is_whitespace_def)
  from a b empty_text_is_noop [of ?s "readings_at 2000" "[0x20, 0x20, 0x20]" 1000]
  show ?thesis by simp
qed

section \<open>Creating a task\<close>

text \<open>
  C5. When the trimmed input is not empty, \<open>addTodo\<close> allocates a todo with the
  trimmed text, \<open>completed = false\<close> and the status given by the connectivity flag
  (\<open>synced\<close> online, \<open>pending\<close> offline), and puts it at the front of the
  collection. Offline, the queue is the old queue followed by one \<open>create\<close> entry
  whose \<open>data\<close> is that todo, and (unless the storage is full) the stored queue is
  the snapshot of the new queue; online, the queue is unchanged.
\<close>

theorem addTodo_creates:
  assumes "trim (todoInput s) \<noteq> []"
  shows "todos (addTodo r s) = next_addr s # todos s \<and>
         heap (addTodo r s) =
           (heap s)(next_addr s :=
              \<lparr>id_t = now r, text_t = trim (todoInput s), completed = False,
               createdAt = created_iso r, lastModified = modified_iso r,
               syncStatus = (if isOnline s then Synced else Pending)\<rparr>) \<and>
         pendingSync (addTodo r s) = pendingSync s \<and>
         (isOnline s \<longrightarrow> queue (addTodo r s) = queue s) \<and>
         (\<not> isOnline s \<longrightarrow>
            queue (addTodo r s) =
              queue s @ [\<lparr>id_i = of_int (item_now r) + item_random r, action = Create,
                          data = Todo (next_addr s), timestamp = item_iso r\<rparr>] \<and>
            (\<not> ls_full s \<longrightarrow>
               ls_pendingSync (addTodo r s) =
                 Some (map (stringify_item (heap (addTodo r s))) (queue (addTodo r s)))))"
  using assms
  by (simp add: addTodo_def Let_def addToPendingSync_def savePendingSync_def saveTodos_def
      call_unawaited_def queue_def connectivity_status_def)

theorem addTodo_creates_witness:
  "trim (todoInput (step (fresh False) (TypeInput [0x20, 0x61, 0x62, 0x20]))) \<noteq> [] \<and>
   todos (addTodo (readings_at 1000) (step (fresh False) (TypeInput [0x20, 0x61, 0x62, 0x20]))) = [0] \<and>
   heap (addTodo (readings_at 1000) (step (fresh False) (TypeInput [0x20, 0x61, 0x62, 0x20]))) 0 =
     \<lparr>id_t = 1000, text_t = [0x61, 0x62], completed = False,
      createdAt = ''2026-01-01T00:00:00.000Z'', lastModified = ''2026-01-01T00:00:00.000Z'',
      syncStatus = Pending\<rparr> \<and>
   queue (addTodo (readings_at 1000) (step (fresh False) (TypeInput [0x20, 0x61, 0x62, 0x20]))) =
     [\<lparr>id_i = 2001 / 2, action = Create, data = Todo 0,
       timestamp = ''2026-01-01T00:00:00.000Z''\<rparr>]"
proof -
  let ?s = "step (fresh False) (TypeInput [0x20, 0x61, 0x62, 0x20])"
  let ?r = "readings_at 1000"
  have t: "trim (todoInput ?s) = [0x61, 0x62]"
    by (simp add: trim_def is_whitespace_def)
  have ne: "trim (todoInput ?s) \<noteq> []"
    unfolding t by simp
  have sf: "next_addr ?s = 0" "todos ?s = []" "isOnline ?s = False" "queue ?s = []"
    by (simp_all add: fresh_def queue_def)
  have rf: "now ?r = 1000" "created_iso ?r = ''2026-01-01T00:00:00.000Z''"
    "modified_iso ?r = ''2026-01-01T00:00:00.000Z''" "item_now ?r = 1000"
    "item_random ?r = 1 / 2" "item_iso ?r = ''2026-01-01T00:00:00.000Z''"
    by (simp_all add: readings_at_def)
  note c = addTodo_creates [OF ne, of ?r, unfolded sf rf t]
  from c have 1: "todos (addTodo ?r ?s) = [0]" by simp
  from c have "heap (addTodo ?r ?s) = (heap ?s)(0 :=
              \<lparr>id_t = 1000, text_t = [0x61, 0x62], completed = False,
               createdAt = ''2026-01-01T00:00:00.000Z'', lastModified = ''2026-01-01T00:00:00.000Z'',
               syncStatus = (if False then Synced else Pending)\<rparr>)" by simp
  then have 2: "heap (addTodo ?r ?s) 0 = \<lparr>id_t = 1000, text_t = [0x61, 0x62], completed = False,
               createdAt = ''2026-01-01T00:00:00.000Z'', lastModified = ''2026-01-01T00:00:00.000Z'',
               syncStatus = Pending\<rparr>" by simp
  from c have 3: "queue (addTodo ?r ?s) = [] @ [\<lparr>id_i = of_int 1000 + 1 / 2, action = Create,
                          data = Todo 0, timestamp = ''2026-01-01T00:00:00.000Z''\<rparr>]" by simp
  have 4: "(of_int 1000 + 1 / 2 :: rat) = 2001 / 2" by simp
  from ne 1 2 3 show ?thesis unfolding 4 by simp
qed

section \<open>The drain with nothing to do\<close>

text \<open>
  C8. \<open>syncData\<close> called while offline or with an empty queue returns at line 308:
  the state (collection, queue, both storage keys, notifications, indicator,
  calls made) is the one before the call.
\<close>

theorem idle_drain_is_noop:
  "\<not> isOnline s \<or> queue s = [] \<Longrightarrow> syncData s = s"
  by (auto simp: syncData_def)

theorem idle_drain_is_noop_witness:
  "queue (fresh True) = [] \<and> syncData (fresh True) = fresh True \<and>
   \<not> isOnline (run (fresh False) [TypeInput [0x61], AddClick (readings_at 1000)]) \<and>
   queue (run (fresh False) [TypeInput [0x61], AddClick (readings_at 1000)]) \<noteq> [] \<and>
   syncData (run (fresh False) [TypeInput [0x61], AddClick (readings_at 1000)]) =
     run (fresh False) [TypeInput [0x61], AddClick (readings_at 1000)]"
proof -
  let ?s = "run (fresh False) [TypeInput [0x61], AddClick (readings_at 1000)]"
  have q: "queue (fresh True) = []"
    by (simp add: fresh_def queue_def)
  have off: "\<not> isOnline ?s"
    by (simp add: run_def fresh_def addTodo_def trim_def is_whitespace_def Let_def
        addToPendingSync_def savePendingSync_def saveTodos_def)
  have ne: "queue ?s \<noteq> []"
    by (simp add: run_def fresh_def addTodo_def trim_def is_whitespace_def Let_def
        addToPendingSync_def savePendingSync_def saveTodos_def queue_def)
  from q off ne idle_drain_is_noop [of "fresh True"] idle_drain_is_noop [of ?s]
  show ?thesis by simp
qed

section \<open>Corrupt storage\<close>

text \<open>
  C9, as the code has it. When the text stored under a key makes \<open>JSON.parse\<close>
  throw, \<open>loadTodos\<close> and \<open>loadPendingSync\<close> return the empty array, which is
  also what they return when the key is absent. When the stored text is not
  empty and \<open>JSON.parse\<close> returns a value, the loaders return that value as it
  is, array or not: they do not look at it. The loaders have no result other
  than a value: the \<open>try\<close> block covers the whole body and the handler returns
  \<open>[]\<close>.
\<close>

theorem load_tolerates_unparsable:
  "(getItem p ''todos'' = Inr (Some t) \<and> JSON_parse p t = Inl e \<longrightarrow>
      loadTodos p = JArray [] \<and>
      loadTodos p = loadTodos (p\<lparr>getItem := (getItem p)(''todos'' := Inr None)\<rparr>)) \<and>
   (getItem p ''pendingSync'' = Inr (Some q) \<and> JSON_parse p q = Inl e' \<longrightarrow>
      loadPendingSync p = JArray [] \<and>
      loadPendingSync p =
        loadPendingSync (p\<lparr>getItem := (getItem p)(''pendingSync'' := Inr None)\<rparr>)) \<and>
   (getItem p ''todos'' = Inr (Some t') \<and> t' \<noteq> [] \<and> JSON_parse p t' = Inr v \<longrightarrow>
      loadTodos p = v) \<and>
   (getItem p ''pendingSync'' = Inr (Some q') \<and> q' \<noteq> [] \<and> JSON_parse p q' = Inr w \<longrightarrow>
      loadPendingSync p = w)"
  by (simp add: loadTodos_def loadPendingSync_def load_key_def)

theorem load_tolerates_unparsable_witness:
  "getItem corrupt_platform ''todos'' = Inr (Some truncated_text) \<and>
   JSON_parse corrupt_platform truncated_text = Inl SyntaxError \<and>
   loadTodos corrupt_platform = JArray [] \<and>
   getItem corrupt_platform ''pendingSync'' = Inr (Some truncated_text) \<and>
   loadPendingSync corrupt_platform = JArray [] \<and>
   getItem parsing_platform ''todos'' = Inr (Some null_text) \<and> null_text \<noteq> [] \<and>
   JSON_parse parsing_platform null_text = Inr JNull \<and>
   loadTodos parsing_platform = JNull \<and>
   getItem parsing_platform ''pendingSync'' = Inr (Some number_text) \<and> number_text \<noteq> [] \<and>
   JSON_parse parsing_platform number_text = Inr (JNumber 42) \<and>
   loadPendingSync parsing_platform = JNumber 42"
proof -
  have g: "getItem corrupt_platform ''todos'' = Inr (Some truncated_text)"
          "getItem corrupt_platform ''pendingSync'' = Inr (Some truncated_text)"
    by (simp_all add: corrupt_platform_def)
  have j: "JSON_parse corrupt_platform truncated_text = Inl SyntaxError"
    by (simp add: corrupt_platform_def truncated_text_def)
  have g': "getItem parsing_platform ''todos'' = Inr (Some null_text)"
           "getItem parsing_platform ''pendingSync'' = Inr (Some number_text)"
    by (simp_all add: parsing_platform_def)
  have ne: "null_text \<noteq> []" "number_text \<noteq> []"
    by (simp_all add: null_text_def number_text_def)
  have j': "JSON_parse parsing_platform null_text = Inr JNull"
           "JSON_parse parsing_platform number_text = Inr (JNumber 42)"
    by (simp_all add: parsing_platform_def null_text_def number_text_def)
  from g j g' ne j'
    load_tolerates_unparsable [of corrupt_platform truncated_text SyntaxError
      truncated_text SyntaxError "[]" JNull "[]" JNull]
    load_tolerates_unparsable [of parsing_platform "[]" SyntaxError "[]" SyntaxError
      null_text JNull number_text "JNumber 42"]
  show ?thesis by simp
qed

text \<open>
  C9 as stated fails for a stored value that is corrupt and still parses. With
  the text \<open>null\<close> under \<open>todos\<close> and the text \<open>42\<close> under \<open>pendingSync\<close>,
  \<open>loadTodos\<close> returns \<open>null\<close> and \<open>loadPendingSync\<close> returns \<open>42\<close>, not the
  empty collection: lines 503 and 521 return what \<open>JSON.parse\<close> returned.
\<close>

theorem parsed_non_array_is_returned:
  "getItem parsing_platform ''todos'' = Inr (Some null_text) \<and>
   loadTodos parsing_platform = JNull \<and>
   loadTodos parsing_platform \<noteq> JArray [] \<and>
   getItem parsing_platform ''pendingSync'' = Inr (Some number_text) \<and>
   loadPendingSync parsing_platform = JNumber 42 \<and>
   loadPendingSync parsing_platform \<noteq> JArray []"
  by (simp add: loadTodos_def loadPendingSync_def load_key_def parsing_platform_def
      null_text_def number_text_def)

section \<open>Starting a drain\<close>

lemma filter_remove_nth:
  "k < length xs \<Longrightarrow>
   length (filter P (remove_nth k xs)) =
     length (filter P xs) - (if P (xs ! k) then 1 else 0)"
proof -
  assume k: "k < length xs"
  then have "xs = take k xs @ xs ! k # drop (Suc k) xs"
    by (simp add: id_take_nth_drop)
  then have "length (filter P xs) =
      length (filter P (take k xs @ xs ! k # drop (Suc k) xs))"
    by simp
  then show ?thesis
    by (simp add: remove_nth_def)
qed

lemma drains_syncData:
  "drains_running (syncData s) =
     (if isOnline s \<and> queue s \<noteq> [] then Suc (drains_running s) else drains_running s)"
  by (simp add: syncData_def drains_running_def iterate_def Let_def showSyncIndicator_def
      queue_def)

lemma filter_nth_pos: "k < length xs \<Longrightarrow> P (xs ! k) \<Longrightarrow> 0 < length (filter P xs)"
  by (metis filter_empty_conv length_greater_0_conv nth_mem)

lemma drains_settle: "drains_running (settle k out s) \<le> drains_running s"
proof (cases "k < length (inflight s)")
  case False
  then show ?thesis by (simp add: settle_def)
next
  case True
  show ?thesis
  proof (cases "inflight s ! k")
    case (Loose a d)
    with True show ?thesis
      by (simp add: settle_def Let_def drains_running_def filter_remove_nth
          split: outcome.split)
  next
    case (Awaited item arr i)
    with True have "0 < length (filter is_drain (inflight s))"
      using filter_nth_pos [of k "inflight s" is_drain] by simp
    with True Awaited show ?thesis
      by (simp add: settle_def Let_def drains_running_def filter_remove_nth iterate_def
          split: outcome.split)
  qed
qed

lemma drains_mutation:
  "drains_running (addTodo r s) = drains_running s"
  "drains_running (toggleTodo i r s) = drains_running s"
  "drains_running (deleteTodo i r s) = drains_running s"
  "drains_running (saveEdit i v r s) = drains_running s"
  by (simp_all add: addTodo_def toggleTodo_def deleteTodo_def saveEdit_def Let_def
      drains_running_def split: option.split)

lemma drains_plain:
  "drains_running (s\<lparr>todoInput := v\<rparr>) = drains_running s"
  "drains_running (s\<lparr>isOnline := b\<rparr>) = drains_running s"
  "drains_running (s\<lparr>ls_full := b\<rparr>) = drains_running s"
  "drains_running (s\<lparr>editingId := e\<rparr>) = drains_running s"
  by (simp_all add: drains_running_def)

lemma queue_plain [simp]:
  "queue (s\<lparr>todoInput := v\<rparr>) = queue s"
  "queue (s\<lparr>isOnline := b\<rparr>) = queue s"
  "queue (s\<lparr>ls_full := b\<rparr>) = queue s"
  "queue (s\<lparr>editingId := e\<rparr>) = queue s"
  by (simp_all add: queue_def)

text \<open>
  C3, as the code has it. An event starts a drain exactly when the queue is not
  empty and the event is the browser's \<open>online\<close> event, a probe answered with
  \<open>ok\<close> while the app is marked offline, or a sync request (the button, the timer of
  line 543) while the app is marked online. No event starts more than one drain.
  Whether a drain is already running plays no part: \<open>syncData\<close> tests the
  connectivity flag and the length of the queue only.
\<close>

theorem drain_start_rule:
  "drains_running (step s ev) \<le> Suc (drains_running s) \<and>
   (drains_running (step s ev) = Suc (drains_running s)) =
     (queue s \<noteq> [] \<and>
      (ev = BrowserOnline \<or> ev = ProbeAnswered True \<and> \<not> isOnline s \<or>
       ev = SyncClick \<and> isOnline s))"
proof (cases ev)
  case (DelayElapsed k)
  have "drains_running (step s ev) \<le> drains_running s"
    using drains_settle [of k _ s] by (simp add: DelayElapsed)
  with DelayElapsed show ?thesis by auto
qed (auto simp: drains_mutation drains_syncData drains_plain browser_online_def
       browser_offline_def doConnectivityCheck_def startEdit_def cancelEdit_def)

theorem drain_start_rule_witness:
  "drains_running
     (run (fresh True) [BrowserOffline, TypeInput [0x61], AddClick (readings_at 1000)]) = 0 \<and>
   queue (run (fresh True) [BrowserOffline, TypeInput [0x61], AddClick (readings_at 1000)]) =
     [\<lparr>id_i = 2001 / 2, action = Create, data = Todo 0,
       timestamp = ''2026-01-01T00:00:00.000Z''\<rparr>] \<and>
   drains_running
     (step (run (fresh True) [BrowserOffline, TypeInput [0x61], AddClick (readings_at 1000)])
        BrowserOnline) = 1"
proof -
  let ?s = "run (fresh True) [BrowserOffline, TypeInput [0x61], AddClick (readings_at 1000)]"
  have d: "drains_running ?s = 0"
    by (simp add: run_def fresh_def addTodo_def trim_def is_whitespace_def Let_def
        browser_offline_def drains_running_def)
  have q: "queue ?s = [\<lparr>id_i = 2001 / 2, action = Create, data = Todo 0,
       timestamp = ''2026-01-01T00:00:00.000Z''\<rparr>]"
    by (simp add: run_def fresh_def addTodo_def trim_def is_whitespace_def Let_def
        browser_offline_def readings_at_def queue_def addToPendingSync_def
        savePendingSync_def saveTodos_def)
  from drain_start_rule [of ?s BrowserOnline] d q show ?thesis
    by simp
qed

text \<open>
  C3 as stated fails. Offline, one task is added; the browser's \<open>online\<close> event
  starts a drain, which waits for its first call. The browser reports offline and
  a probe is then answered: a second activation of \<open>syncData\<close> starts while the
  first is still waiting, and the \<open>create\<close> call is made twice.
\<close>

theorem second_drain_starts:
  "drains_running
     (run (fresh True) [BrowserOffline, TypeInput [0x61], AddClick (readings_at 1000),
                        BrowserOnline, BrowserOffline]) = 1 \<and>
   drains_running
     (run (fresh True) [BrowserOffline, TypeInput [0x61], AddClick (readings_at 1000),
                        BrowserOnline, BrowserOffline, ProbeAnswered True]) = 2 \<and>
   api_issued
     (run (fresh True) [BrowserOffline, TypeInput [0x61], AddClick (readings_at 1000),
                        BrowserOnline, BrowserOffline, ProbeAnswered True]) =
     [(Create, Todo 0), (Create, Todo 0)]"
  by (simp add: run_def fresh_def addTodo_def trim_def is_whitespace_def Let_def
      browser_offline_def browser_online_def doConnectivityCheck_def syncData_def
      showSyncIndicator_def iterate_def drains_running_def queue_def
      addToPendingSync_def savePendingSync_def saveTodos_def)

section \<open>The loop of the drain\<close>

lemma mark_synced_id [simp]: "id_t (mark_synced ts h item a) = id_t (h a)"
  by (simp add: mark_synced_def split: option.split)

lemma data_id_mark [simp]: "data_id (mark_synced ts h item) d = data_id h d"
  by (cases d) simp_all

lemma find_todo_mark [simp]: "find_todo (mark_synced ts h item) ts' i = find_todo h ts' i"
  by (simp add: find_todo_def)

lemma matched_todo_mark [simp]:
  "matched_todo (mark_synced ts h item) ts' item' = matched_todo h ts' item'"
  by (simp add: matched_todo_def)

lemma matched_todo_fold [simp]:
  "matched_todo (foldl (mark_synced ts) h items) ts' item' = matched_todo h ts' item'"
  by (induction items arbitrary: h) simp_all

lemma id_fold [simp]: "id_t (foldl (mark_synced ts) h items a) = id_t (h a)"
  by (induction items arbitrary: h) simp_all

lemma mark_synced_keeps:
  "syncStatus (h a) = Synced \<Longrightarrow> syncStatus (mark_synced ts h item a) = Synced"
  by (simp add: mark_synced_def split: option.split)

lemma fold_keeps:
  "syncStatus (h a) = Synced \<Longrightarrow> syncStatus (foldl (mark_synced ts) h items a) = Synced"
  by (induction items arbitrary: h) (simp_all add: mark_synced_keeps)

lemma mark_synced_marks:
  "matched_todo h ts item = Some a \<Longrightarrow> syncStatus (mark_synced ts h item a) = Synced"
  by (simp add: mark_synced_def)

lemma fold_marks:
  "item \<in> set items \<Longrightarrow> matched_todo h ts item = Some a \<Longrightarrow>
   syncStatus (foldl (mark_synced ts) h items a) = Synced"
proof (induction items arbitrary: h)
  case Nil
  then show ?case by simp
next
  case (Cons x xs)
  show ?case
  proof (cases "item = x")
    case True
    with Cons.prems show ?thesis
      by (simp add: fold_keeps mark_synced_marks)
  next
    case False
    with Cons.prems have "item \<in> set xs" by simp
    moreover have "matched_todo (mark_synced ts h x) ts item = Some a"
      using Cons.prems by simp
    ultimately show ?thesis
      using Cons.IH [of "mark_synced ts h x"] by simp
  qed
qed

lemma awaiting_last [simp]: "inflight s = fl @ [Awaited item arr i] \<Longrightarrow> awaiting s"
  by (simp add: awaiting_def)

lemma remove_nth_last [simp]: "remove_nth (length xs) (xs @ [x]) = xs"
  by (simp add: remove_nth_def)

lemma settle_last_fulfilled:
  "inflight s = fl @ [Awaited item arr i] \<Longrightarrow>
   settle (length fl) (Fulfilled v) s =
     iterate arr i
       (s\<lparr>inflight := fl, api_log := api_log s @ [call_entry item],
          heap := mark_synced (todos s) (heap s) item\<rparr>)"
  by (simp add: settle_def Let_def call_entry_def)

lemma settle_last_rejected:
  "inflight s = fl @ [Awaited item arr i] \<Longrightarrow>
   settle (length fl) Rejected s = drain_failed (s\<lparr>inflight := fl\<rparr>)"
  by (simp add: settle_def Let_def)

lemma resume_all_idle: "length (inflight s) \<noteq> Suc n \<Longrightarrow> resume_all n outs s = s"
  by (cases outs) simp_all

lemma resume_all_append:
  "resume_all n (xs @ ys) s = resume_all n ys (resume_all n xs s)"
proof (induction xs arbitrary: s)
  case Nil
  show ?case by simp
next
  case (Cons x xs)
  show ?case
  proof (cases "length (inflight s) = Suc n \<and> awaiting s")
    case True
    with Cons.IH show ?thesis by simp
  next
    case False
    then have "resume_all n ys s = s" by (cases ys) auto
    with False show ?thesis by auto
  qed
qed

text \<open>
  The activation waits for entry \<open>i\<close> of its array; \<open>length rs\<close> calls are fulfilled
  and the loop is still inside the array.
\<close>

lemma resume_fulfilled:
  assumes "inflight s = fl @ [Awaited (arrays s arr ! i) arr (Suc i)]"
    and "i + length rs < length (arrays s arr)"
  shows "resume_all (length fl) (map Fulfilled rs) s =
     s\<lparr>api_log := api_log s @ map call_entry (take (length rs) (drop i (arrays s arr))),
       heap := foldl (mark_synced (todos s)) (heap s)
                 (take (length rs) (drop i (arrays s arr))),
       api_issued :=
         api_issued s @ map call_entry (take (length rs) (drop (Suc i) (arrays s arr))),
       inflight :=
         fl @ [Awaited (arrays s arr ! (i + length rs)) arr (Suc (i + length rs))]\<rparr>"
  using assms
proof (induction rs arbitrary: s i)
  case Nil
  then show ?case by simp
next
  case (Cons r rs)
  let ?q = "arrays s arr"
  let ?t = "s\<lparr>inflight := fl, api_log := api_log s @ [call_entry (?q ! i)],
              heap := mark_synced (todos s) (heap s) (?q ! i)\<rparr>"
  let ?u = "?t\<lparr>api_issued := api_issued ?t @ [(action (?q ! Suc i), data (?q ! Suc i))],
              inflight := inflight ?t @ [Awaited (?q ! Suc i) arr (Suc (Suc i))]\<rparr>"
  from Cons.prems have i: "i < length ?q" and si: "Suc i < length ?q" by simp_all
  have step: "settle (length fl) (Fulfilled r) s = ?u"
    using Cons.prems(1) si
    by (simp add: settle_last_fulfilled iterate_inside)
  have "resume_all (length fl) (map Fulfilled (r # rs)) s =
        resume_all (length fl) (map Fulfilled rs) ?u"
    using Cons.prems(1) step by simp
  also have "\<dots> =
     ?u\<lparr>api_log := api_log ?u @ map call_entry (take (length rs) (drop (Suc i) (arrays ?u arr))),
       heap := foldl (mark_synced (todos ?u)) (heap ?u)
                 (take (length rs) (drop (Suc i) (arrays ?u arr))),
       api_issued :=
         api_issued ?u @ map call_entry (take (length rs) (drop (Suc (Suc i)) (arrays ?u arr))),
       inflight :=
         fl @ [Awaited (arrays ?u arr ! (Suc i + length rs)) arr (Suc (Suc i + length rs))]\<rparr>"
    using Cons.prems by (intro Cons.IH) simp_all
  also have "\<dots> =
     s\<lparr>api_log := api_log s @ map call_entry (take (length (r # rs)) (drop i ?q)),
       heap := foldl (mark_synced (todos s)) (heap s) (take (length (r # rs)) (drop i ?q)),
       api_issued :=
         api_issued s @ map call_entry (take (length (r # rs)) (drop (Suc i) ?q)),
       inflight :=
         fl @ [Awaited (?q ! (i + length (r # rs))) arr (Suc (i + length (r # rs)))]\<rparr>"
    using i si
    by (simp add: Cons_nth_drop_Suc [symmetric] call_entry_def)
  finally show ?case .
qed

text \<open>The last call the loop waits for is fulfilled: the loop runs off the array.\<close>

lemma resume_completed:
  assumes infl: "inflight s = fl @ [Awaited (arrays s arr ! i) arr (Suc i)]"
    and len: "i + length rs = length (arrays s arr)"
    and i: "i < length (arrays s arr)"
  shows "resume_all (length fl) (map Fulfilled rs @ rest) s =
     drain_completed
       (s\<lparr>api_log := api_log s @ map call_entry (drop i (arrays s arr)),
          heap := foldl (mark_synced (todos s)) (heap s) (drop i (arrays s arr)),
          api_issued := api_issued s @ map call_entry (drop (Suc i) (arrays s arr)),
          inflight := fl\<rparr>)"
proof -
  let ?q = "arrays s arr"
  from len i have "rs \<noteq> []" by auto
  then obtain rs' r where rs: "rs = rs' @ [r]"
    by (metis append_butlast_last_id)
  let ?m = "length rs'"
  from len rs have m: "i + ?m < length ?q" and m': "Suc (i + ?m) = length ?q" by simp_all
  let ?mid = "s\<lparr>api_log := api_log s @ map call_entry (take ?m (drop i ?q)),
       heap := foldl (mark_synced (todos s)) (heap s) (take ?m (drop i ?q)),
       api_issued := api_issued s @ map call_entry (take ?m (drop (Suc i) ?q)),
       inflight := fl @ [Awaited (?q ! (i + ?m)) arr (Suc (i + ?m))]\<rparr>"
  have mid: "resume_all (length fl) (map Fulfilled rs') s = ?mid"
    using infl m by (rule resume_fulfilled)
  have last_step: "settle (length fl) (Fulfilled r) ?mid =
      drain_completed
        (?mid\<lparr>inflight := fl, api_log := api_log ?mid @ [call_entry (?q ! (i + ?m))],
           heap := mark_synced (todos ?mid) (heap ?mid) (?q ! (i + ?m))\<rparr>)"
  proof -
    let ?v = "?mid\<lparr>inflight := fl, api_log := api_log ?mid @ [call_entry (?q ! (i + ?m))],
           heap := mark_synced (todos ?mid) (heap ?mid) (?q ! (i + ?m))\<rparr>"
    have "settle (length fl) (Fulfilled r) ?mid = iterate arr (Suc (i + ?m)) ?v"
      by (rule settle_last_fulfilled) simp
    also have "\<dots> = drain_completed ?v"
      by (rule iterate_outside) (simp add: m')
    finally show ?thesis .
  qed
  have t1: "take ?m (drop i ?q) @ [?q ! (i + ?m)] = drop i ?q"
  proof -
    have "take (Suc ?m) (drop i ?q) = take ?m (drop i ?q) @ [drop i ?q ! ?m]"
      using m by (intro take_Suc_conv_app_nth) simp
    moreover have "take (Suc ?m) (drop i ?q) = drop i ?q"
      using m' by simp
    ultimately show ?thesis using m by simp
  qed
  have t2: "take ?m (drop (Suc i) ?q) = drop (Suc i) ?q"
    using m' by simp
  have "resume_all (length fl) (map Fulfilled rs @ rest) s =
        resume_all (length fl) (Fulfilled r # rest) ?mid"
    using mid by (simp add: rs resume_all_append)
  also have "\<dots> = resume_all (length fl) rest (settle (length fl) (Fulfilled r) ?mid)"
    by simp
  also have "\<dots> = settle (length fl) (Fulfilled r) ?mid"
    unfolding last_step by (rule resume_all_idle) simp
  also have "\<dots> =
     drain_completed
       (s\<lparr>api_log := api_log s @ map call_entry (drop i ?q),
          heap := foldl (mark_synced (todos s)) (heap s) (drop i ?q),
          api_issued := api_issued s @ map call_entry (drop (Suc i) ?q),
          inflight := fl\<rparr>)"
  proof -
    have a: "map call_entry (take ?m (drop i ?q)) @ [call_entry (?q ! (i + ?m))] =
             map call_entry (drop i ?q)"
      using arg_cong [OF t1, of "map call_entry"] by simp
    have h: "mark_synced (todos s)
               (foldl (mark_synced (todos s)) (heap s) (take ?m (drop i ?q))) (?q ! (i + ?m)) =
             foldl (mark_synced (todos s)) (heap s) (drop i ?q)"
      using arg_cong [OF t1, of "foldl (mark_synced (todos s)) (heap s)"] by simp
    have "?mid\<lparr>inflight := fl, api_log := api_log ?mid @ [call_entry (?q ! (i + ?m))],
           heap := mark_synced (todos ?mid) (heap ?mid) (?q ! (i + ?m))\<rparr> =
       s\<lparr>api_log := api_log s @ map call_entry (drop i ?q),
          heap := foldl (mark_synced (todos s)) (heap s) (drop i ?q),
          api_issued := api_issued s @ map call_entry (drop (Suc i) ?q),
          inflight := fl\<rparr>"
      using t2 a h by (cases s) simp
    then show ?thesis
      unfolding last_step by simp
  qed
  finally show ?thesis .
qed

text \<open>A call the loop waits for is rejected: the \<open>catch\<close> block runs.\<close>

lemma resume_rejected:
  assumes infl: "inflight s = fl @ [Awaited (arrays s arr ! i) arr (Suc i)]"
    and len: "i + length rs < length (arrays s arr)"
  shows "resume_all (length fl) (map Fulfilled rs @ Rejected # rest) s =
     drain_failed
       (s\<lparr>api_log := api_log s @ map call_entry (take (length rs) (drop i (arrays s arr))),
          heap := foldl (mark_synced (todos s)) (heap s)
                    (take (length rs) (drop i (arrays s arr))),
          api_issued :=
            api_issued s @ map call_entry (take (length rs) (drop (Suc i) (arrays s arr))),
          inflight := fl\<rparr>)"
proof -
  let ?q = "arrays s arr"
  let ?m = "length rs"
  let ?mid = "s\<lparr>api_log := api_log s @ map call_entry (take ?m (drop i ?q)),
       heap := foldl (mark_synced (todos s)) (heap s) (take ?m (drop i ?q)),
       api_issued := api_issued s @ map call_entry (take ?m (drop (Suc i) ?q)),
       inflight := fl @ [Awaited (?q ! (i + ?m)) arr (Suc (i + ?m))]\<rparr>"
  have mid: "resume_all (length fl) (map Fulfilled rs) s = ?mid"
    using infl len by (rule resume_fulfilled)
  have last_step: "settle (length fl) Rejected ?mid = drain_failed (?mid\<lparr>inflight := fl\<rparr>)"
    by (subst settle_last_rejected [where fl = fl]) simp_all
  have "resume_all (length fl) (map Fulfilled rs @ Rejected # rest) s =
        resume_all (length fl) (Rejected # rest) ?mid"
    using mid by (simp add: resume_all_append)
  also have "\<dots> = resume_all (length fl) rest (settle (length fl) Rejected ?mid)"
    by simp
  also have "\<dots> = settle (length fl) Rejected ?mid"
    unfolding last_step by (rule resume_all_idle) simp
  finally show ?thesis
    unfolding last_step by simp
qed

lemma syncData_starts:
  assumes "isOnline s" and "queue s \<noteq> []"
  shows "syncData s =
     s\<lparr>syncIndicator := True, api_issued := api_issued s @ [call_entry (queue s ! 0)],
       inflight := inflight s @ [Awaited (queue s ! 0) (pendingSync s) (Suc 0)]\<rparr>"
  using assms
  by (simp add: syncData_def iterate_def showSyncIndicator_def queue_def call_entry_def Let_def)

lemma take_Suc_queue: "q \<noteq> [] \<Longrightarrow> take (Suc n) q = q ! 0 # take n (drop (Suc 0) q)"
  by (cases q) simp_all

lemma map_queue_split:
  "q \<noteq> [] \<Longrightarrow> f (q ! 0) # map f (drop (Suc 0) q) = map f q"
  by (cases q) simp_all

lemma fulfilled_prefix:
  "\<forall>out \<in> set outs. out \<noteq> Rejected \<Longrightarrow> \<exists>rs. outs = map Fulfilled rs"
proof (induction outs)
  case Nil
  show ?case by simp
next
  case (Cons out outs)
  then obtain rs where "outs = map Fulfilled rs" by auto
  moreover from Cons.prems obtain r where "out = Fulfilled r"
    by (cases out) auto
  ultimately have "out # outs = map Fulfilled (r # rs)" by simp
  then show ?case by (rule exI)
qed

lemma first_rejected:
  assumes "Rejected \<in> set (take n outs)"
  shows "\<exists>rs rest. outs = map Fulfilled rs @ Rejected # rest \<and> length rs < n \<and>
           length rs = length (takeWhile (\<lambda>out. out \<noteq> Rejected) outs)"
proof -
  let ?pre = "takeWhile (\<lambda>out. out \<noteq> Rejected) outs"
  let ?post = "dropWhile (\<lambda>out. out \<noteq> Rejected) outs"
  from assms have mem: "Rejected \<in> set outs"
    by (meson in_set_takeD)
  then have "?post \<noteq> []" by auto
  moreover have "\<not> (hd ?post \<noteq> Rejected)"
    using \<open>?post \<noteq> []\<close> by (rule hd_dropWhile)
  ultimately obtain rest where post: "?post = Rejected # rest"
    by (cases ?post) auto
  have "\<forall>out \<in> set ?pre. out \<noteq> Rejected"
    by (auto dest: set_takeWhileD)
  then obtain rs where rs: "?pre = map Fulfilled rs"
    using fulfilled_prefix by blast
  have "length ?pre < n"
  proof (rule ccontr)
    assume "\<not> length ?pre < n"
    then have "take n outs = take n ?pre"
      by (metis append_take_drop_id leI nat_le_linear take_all take_append
          takeWhile_dropWhile_id diff_is_0_eq take0 append_Nil2)
    with assms have "Rejected \<in> set ?pre"
      by (metis in_set_takeD)
    then show False by (auto dest: set_takeWhileD)
  qed
  moreover have "outs = ?pre @ ?post" by simp
  ultimately show ?thesis
    using rs post by (metis length_map)
qed


lemma syncData_run_completed:
  assumes "isOnline s" and "queue s \<noteq> []" and "length rs = length (queue s)"
  shows "syncData_run (map Fulfilled rs @ rest) s =
     drain_completed
       (s\<lparr>syncIndicator := True,
          api_log := api_log s @ map call_entry (queue s),
          heap := foldl (mark_synced (todos s)) (heap s) (queue s),
          api_issued := api_issued s @ map call_entry (queue s)\<rparr>)"
proof -
  let ?q = "queue s"
  let ?s0 = "syncData s"
  have s0: "?s0 = s\<lparr>syncIndicator := True, api_issued := api_issued s @ [call_entry (?q ! 0)],
       inflight := inflight s @ [Awaited (?q ! 0) (pendingSync s) (Suc 0)]\<rparr>"
    using assms(1,2) by (rule syncData_starts)
  have arr: "arrays ?s0 (pendingSync s) = ?q"
    unfolding s0 by (simp add: queue_def)
  have infl: "inflight ?s0 =
      inflight s @ [Awaited (arrays ?s0 (pendingSync s) ! 0) (pendingSync s) (Suc 0)]"
    unfolding arr unfolding s0 by simp
  have len: "0 + length rs = length (arrays ?s0 (pendingSync s))"
    unfolding arr using assms(3) by simp
  have pos: "0 < length (arrays ?s0 (pendingSync s))"
    unfolding arr using assms(2) by simp
  from resume_completed [OF infl len pos, of rest]
  have run: "syncData_run (map Fulfilled rs @ rest) s =
     drain_completed
       (?s0\<lparr>api_log := api_log ?s0 @ map call_entry (drop 0 ?q),
          heap := foldl (mark_synced (todos ?s0)) (heap ?s0) (drop 0 ?q),
          api_issued := api_issued ?s0 @ map call_entry (drop (Suc 0) ?q),
          inflight := inflight s\<rparr>)"
    unfolding syncData_run_def arr .
  have "?s0\<lparr>api_log := api_log ?s0 @ map call_entry (drop 0 ?q),
          heap := foldl (mark_synced (todos ?s0)) (heap ?s0) (drop 0 ?q),
          api_issued := api_issued ?s0 @ map call_entry (drop (Suc 0) ?q),
          inflight := inflight s\<rparr> =
        s\<lparr>syncIndicator := True,
          api_log := api_log s @ map call_entry (queue s),
          heap := foldl (mark_synced (todos s)) (heap s) (queue s),
          api_issued := api_issued s @ map call_entry (queue s)\<rparr>"
    using assms(2) unfolding s0 by (cases s) (simp add: map_queue_split)
  with run show ?thesis by simp
qed

lemma syncData_run_rejected:
  assumes "isOnline s" and "length rs < length (queue s)"
  shows "syncData_run (map Fulfilled rs @ Rejected # rest) s =
     drain_failed
       (s\<lparr>syncIndicator := True,
          api_log := api_log s @ map call_entry (take (length rs) (queue s)),
          heap := foldl (mark_synced (todos s)) (heap s) (take (length rs) (queue s)),
          api_issued := api_issued s @ map call_entry (take (Suc (length rs)) (queue s))\<rparr>)"
proof -
  let ?q = "queue s"
  let ?n = "length rs"
  let ?s0 = "syncData s"
  from assms(2) have ne: "?q \<noteq> []" by auto
  have s0: "?s0 = s\<lparr>syncIndicator := True, api_issued := api_issued s @ [call_entry (?q ! 0)],
       inflight := inflight s @ [Awaited (?q ! 0) (pendingSync s) (Suc 0)]\<rparr>"
    using assms(1) ne by (rule syncData_starts)
  have arr: "arrays ?s0 (pendingSync s) = ?q"
    unfolding s0 by (simp add: queue_def)
  have infl: "inflight ?s0 =
      inflight s @ [Awaited (arrays ?s0 (pendingSync s) ! 0) (pendingSync s) (Suc 0)]"
    unfolding arr unfolding s0 by simp
  from assms(2) have "0 + ?n < length (arrays ?s0 (pendingSync s))"
    unfolding arr by simp
  from resume_rejected [OF infl this, of rest]
  have run: "syncData_run (map Fulfilled rs @ Rejected # rest) s =
     drain_failed
      (?s0\<lparr>api_log := api_log ?s0 @ map call_entry (take ?n (drop 0 ?q)),
         heap := foldl (mark_synced (todos ?s0)) (heap ?s0) (take ?n (drop 0 ?q)),
         api_issued := api_issued ?s0 @ map call_entry (take ?n (drop (Suc 0) ?q)),
         inflight := inflight s\<rparr>)"
    unfolding syncData_run_def arr .
  have "?s0\<lparr>api_log := api_log ?s0 @ map call_entry (take ?n (drop 0 ?q)),
         heap := foldl (mark_synced (todos ?s0)) (heap ?s0) (take ?n (drop 0 ?q)),
         api_issued := api_issued ?s0 @ map call_entry (take ?n (drop (Suc 0) ?q)),
         inflight := inflight s\<rparr> =
       s\<lparr>syncIndicator := True,
          api_log := api_log s @ map call_entry (take ?n ?q),
          heap := foldl (mark_synced (todos s)) (heap s) (take ?n ?q),
          api_issued := api_issued s @ map call_entry (take (Suc ?n) ?q)\<rparr>"
    using ne unfolding s0 by (cases s) (simp add: take_Suc_queue)
  with run show ?thesis by simp
qed

section \<open>Replay order\<close>


section \<open>A drain that fails\<close>

lemma syncData_run_first_rejected:
  assumes "isOnline s" and "Rejected \<in> set (take (length (queue s)) outs)"
  shows "pendingSync (syncData_run outs s) = pendingSync s \<and>
         arrays (syncData_run outs s) = arrays s \<and>
         queue (syncData_run outs s) = queue s \<and>
         ls_pendingSync (syncData_run outs s) = ls_pendingSync s \<and>
         ls_todos (syncData_run outs s) = ls_todos s \<and>
         todos (syncData_run outs s) = todos s \<and>
         notifications (syncData_run outs s) =
           notifications s @ [(''Sync failed. Will retry later.'', Error)] \<and>
         syncIndicator (syncData_run outs s) = False \<and>
         inflight (syncData_run outs s) = inflight s \<and>
         api_issued (syncData_run outs s) =
           api_issued s @
           map call_entry
             (take (Suc (length (takeWhile (\<lambda>out. out \<noteq> Rejected) outs))) (queue s))"
proof -
  from first_rejected [OF assms(2)] obtain rs rest
    where outs: "outs = map Fulfilled rs @ Rejected # rest"
      and n: "length rs < length (queue s)"
      and tw: "length rs = length (takeWhile (\<lambda>out. out \<noteq> Rejected) outs)"
    by blast
  from syncData_run_rejected [OF assms(1) n, of rest] tw show ?thesis
    unfolding outs [symmetric] by (simp add: queue_def)
qed

text \<open>
  C1, as the code has it. \<open>syncData\<close> is called online and nothing else happens
  until it is over. When one of the calls for the queue's entries is rejected
  (the awaited promise throws; this is the failure line 336 catches), no call is
  made after the rejected one, the array bound to \<open>this.pendingSync\<close> and its
  entries are those before the drain, in the same order, both storage keys are
  untouched, the error notification is shown, the sync indicator is off and the
  activation is over. A call that is fulfilled is a success for the drain
  whatever result it carries, \<open>{ success: false }\<close> included, since line 315
  reads no result: when every call is fulfilled the queue is emptied and the
  success notification is shown.
\<close>

theorem rejected_call_keeps_queue:
  "(isOnline s \<and> Rejected \<in> set (take (length (queue s)) outs) \<longrightarrow>
      pendingSync (syncData_run outs s) = pendingSync s \<and>
      arrays (syncData_run outs s) = arrays s \<and>
      queue (syncData_run outs s) = queue s \<and>
      ls_pendingSync (syncData_run outs s) = ls_pendingSync s \<and>
      ls_todos (syncData_run outs s) = ls_todos s \<and>
      todos (syncData_run outs s) = todos s \<and>
      notifications (syncData_run outs s) =
        notifications s @ [(''Sync failed. Will retry later.'', Error)] \<and>
      syncIndicator (syncData_run outs s) = False \<and>
      inflight (syncData_run outs s) = inflight s \<and>
      api_issued (syncData_run outs s) =
        api_issued s @
        map call_entry
          (take (Suc (length (takeWhile (\<lambda>out. out \<noteq> Rejected) outs))) (queue s))) \<and>
   (isOnline s \<and> queue s \<noteq> [] \<and> length rs = length (queue s) \<longrightarrow>
      queue (syncData_run (map Fulfilled rs) s) = [] \<and>
      notifications (syncData_run (map Fulfilled rs) s) =
        notifications s @ [(''Sync completed successfully!'', Success)] \<and>
      syncIndicator (syncData_run (map Fulfilled rs) s) = False \<and>
      inflight (syncData_run (map Fulfilled rs) s) = inflight s \<and>
      api_issued (syncData_run (map Fulfilled rs) s) =
        api_issued s @ map call_entry (queue s))"
proof (intro conjI impI)
  assume a: "isOnline s \<and> queue s \<noteq> [] \<and> length rs = length (queue s)"
  then have on: "isOnline s" and ne: "queue s \<noteq> []" and len: "length rs = length (queue s)"
    by simp_all
  from syncData_run_completed [OF on ne len, of "[]"]
  have run: "syncData_run (map Fulfilled rs) s =
     drain_completed
       (s\<lparr>syncIndicator := True,
          api_log := api_log s @ map call_entry (queue s),
          heap := foldl (mark_synced (todos s)) (heap s) (queue s),
          api_issued := api_issued s @ map call_entry (queue s)\<rparr>)"
    by simp
  show "queue (syncData_run (map Fulfilled rs) s) = []"
    and "notifications (syncData_run (map Fulfilled rs) s) =
        notifications s @ [(''Sync completed successfully!'', Success)]"
    and "syncIndicator (syncData_run (map Fulfilled rs) s) = False"
    and "inflight (syncData_run (map Fulfilled rs) s) = inflight s"
    and "api_issued (syncData_run (map Fulfilled rs) s) =
        api_issued s @ map call_entry (queue s)"
    unfolding run by simp_all
qed (use syncData_run_first_rejected [of s outs] in simp_all)

section \<open>The drain with the client of this repository\<close>

lemma client_outcomes_fulfilled:
  "client_outcomes q = map Fulfilled (replicate (length q) \<lparr>success = True\<rparr>)"
  by (induction q) (simp_all add: client_outcomes_def simulateApiCall_def)



lemma mutation_notifications [simp]:
  "notifications (addTodo r s) = notifications s"
  "notifications (toggleTodo i r s) = notifications s"
  "notifications (deleteTodo i r s) = notifications s"
  "notifications (saveEdit i v r s) = notifications s"
  by (simp_all add: addTodo_def toggleTodo_def deleteTodo_def saveEdit_def Let_def
      split: option.split)





subsection \<open>Examples\<close>

lemma two_queued_fields:
  "isOnline two_queued" "todos two_queued = [Suc 0, 0]"
  "queue two_queued =
     [\<lparr>id_i = 2001 / 2, action = Create, data = Todo 0,
       timestamp = ''2026-01-01T00:00:00.000Z''\<rparr>,
      \<lparr>id_i = 4001 / 2, action = Create, data = Todo (Suc 0),
       timestamp = ''2026-01-01T00:00:00.000Z''\<rparr>]"
  "id_t (heap two_queued 0) = 1000" "id_t (heap two_queued (Suc 0)) = 2000"
  "syncStatus (heap two_queued 0) = Pending" "syncStatus (heap two_queued (Suc 0)) = Pending"
  "inflight two_queued = []" "api_log two_queued = []" "api_issued two_queued = []"
  "notifications two_queued = []" "pendingSync two_queued = 0"
  by (simp_all add: two_queued_def run_def fresh_def addTodo_def trim_def is_whitespace_def
      Let_def readings_at_def queue_def addToPendingSync_def savePendingSync_def
      saveTodos_def connectivity_status_def)



theorem rejected_call_keeps_queue_witness:
  "isOnline two_queued \<and>
   Rejected \<in> set (take (length (queue two_queued)) [Fulfilled \<lparr>success = True\<rparr>, Rejected]) \<and>
   queue (syncData_run [Fulfilled \<lparr>success = True\<rparr>, Rejected] two_queued) =
     queue two_queued \<and>
   length (queue (syncData_run [Fulfilled \<lparr>success = True\<rparr>, Rejected] two_queued)) = 2 \<and>
   notifications (syncData_run [Fulfilled \<lparr>success = True\<rparr>, Rejected] two_queued) =
     [(''Sync failed. Will retry later.'', Error)] \<and>
   syncIndicator (syncData_run [Fulfilled \<lparr>success = True\<rparr>, Rejected] two_queued) = False \<and>
   inflight (syncData_run [Fulfilled \<lparr>success = True\<rparr>, Rejected] two_queued) = [] \<and>
   queue two_queued \<noteq> [] \<and>
   length [\<lparr>success = True\<rparr>, \<lparr>success = False\<rparr>] = length (queue two_queued) \<and>
   queue (syncData_run (map Fulfilled [\<lparr>success = True\<rparr>, \<lparr>success = False\<rparr>]) two_queued) =
     [] \<and>
   notifications
     (syncData_run (map Fulfilled [\<lparr>success = True\<rparr>, \<lparr>success = False\<rparr>]) two_queued) =
     [(''Sync completed successfully!'', Success)]"
proof -
  have on: "isOnline two_queued"
    and rej: "Rejected \<in> set (take (length (queue two_queued))
                [Fulfilled \<lparr>success = True\<rparr>, Rejected])"
    and ne: "queue two_queued \<noteq> []"
    and len: "length [\<lparr>success = True\<rparr>, \<lparr>success = False\<rparr>] = length (queue two_queued)"
    by (simp_all add: two_queued_fields)
  from rejected_call_keeps_queue
         [of two_queued "[Fulfilled \<lparr>success = True\<rparr>, Rejected]"
            "[\<lparr>success = True\<rparr>, \<lparr>success = False\<rparr>]"]
    on rej ne len
  show ?thesis
    by (simp add: two_queued_fields)
qed

text \<open>
  C1 as stated fails in two ways. With two entries queued and a client whose
  second call reports \<open>{ success: false }\<close> without throwing, the drain goes on,
  empties the queue and shows the success notification. And when a second
  activation of \<open>syncData\<close> (here from the sync button) runs over the same queue
  and finishes first, it empties the queue; the first activation, whose call is
  then rejected, shows the error notification and ends with an empty queue, not
  with the one entry the queue held when it started.
\<close>

theorem unsuccessful_result_clears_queue:
  "length (queue two_queued) = 2 \<and>
   queue (syncData_run [Fulfilled \<lparr>success = True\<rparr>, Fulfilled \<lparr>success = False\<rparr>]
            two_queued) = [] \<and>
   notifications (syncData_run [Fulfilled \<lparr>success = True\<rparr>, Fulfilled \<lparr>success = False\<rparr>]
                    two_queued) = [(''Sync completed successfully!'', Success)] \<and>
   length (queue (run (fresh False)
                    [TypeInput [0x61], AddClick (readings_at 1000), BrowserOnline])) = 1 \<and>
   drains_running (run (fresh False)
                     [TypeInput [0x61], AddClick (readings_at 1000), BrowserOnline,
                      SyncClick]) = 2 \<and>
   queue (settle 0 Rejected
            (settle 1 (Fulfilled \<lparr>success = True\<rparr>)
               (run (fresh False)
                  [TypeInput [0x61], AddClick (readings_at 1000), BrowserOnline,
                   SyncClick]))) = [] \<and>
   notifications
     (settle 0 Rejected
        (settle 1 (Fulfilled \<lparr>success = True\<rparr>)
           (run (fresh False)
              [TypeInput [0x61], AddClick (readings_at 1000), BrowserOnline, SyncClick]))) =
     [(''Sync completed successfully!'', Success), (''Sync failed. Will retry later.'', Error)]"
proof -
  have on: "isOnline two_queued" and ne: "queue two_queued \<noteq> []"
    and len: "length [\<lparr>success = True\<rparr>, \<lparr>success = False\<rparr>] = length (queue two_queued)"
    by (simp_all add: two_queued_fields)
  have a: "length (queue two_queued) = 2"
    by (simp add: two_queued_fields)
  from syncData_run_completed [OF on ne len, of "[]"]
  have b: "queue (syncData_run [Fulfilled \<lparr>success = True\<rparr>, Fulfilled \<lparr>success = False\<rparr>]
            two_queued) = []"
    and c: "notifications
       (syncData_run [Fulfilled \<lparr>success = True\<rparr>, Fulfilled \<lparr>success = False\<rparr>]
          two_queued) = [(''Sync completed successfully!'', Success)]"
    by (simp_all add: two_queued_fields)
  have d: "length (queue (run (fresh False)
                    [TypeInput [0x61], AddClick (readings_at 1000), BrowserOnline])) = 1"
    "drains_running (run (fresh False)
                     [TypeInput [0x61], AddClick (readings_at 1000), BrowserOnline,
                      SyncClick]) = 2"
    "queue (settle 0 Rejected
            (settle 1 (Fulfilled \<lparr>success = True\<rparr>)
               (run (fresh False)
                  [TypeInput [0x61], AddClick (readings_at 1000), BrowserOnline,
                   SyncClick]))) = []"
    "notifications
     (settle 0 Rejected
        (settle 1 (Fulfilled \<lparr>success = True\<rparr>)
           (run (fresh False)
              [TypeInput [0x61], AddClick (readings_at 1000), BrowserOnline, SyncClick]))) =
     [(''Sync completed successfully!'', Success), (''Sync failed. Will retry later.'', Error)]"
    by (simp_all add: run_def fresh_def readings_at_def addTodo_def trim_def
        is_whitespace_def Let_def find_todo_def queue_def addToPendingSync_def
        savePendingSync_def saveTodos_def connectivity_status_def browser_online_def
        syncData_def showSyncIndicator_def iterate_def settle_def remove_nth_def
        mark_synced_def matched_todo_def drain_completed_def drain_failed_def
        showNotification_def drains_running_def)
  from a b c d show ?thesis by simp
qed


section \<open>The ids of the collection\<close>

lemma find_todo_Some:
  "find_todo h ts i = Some a \<Longrightarrow> a \<in> set ts \<and> id_t (h a) = i"
  by (auto simp: find_todo_def find_Some_iff)

lemma find_todo_None: "find_todo h ts i = None \<Longrightarrow> i \<notin> set (map (\<lambda>a. id_t (h a)) ts)"
  by (auto simp: find_todo_def find_None_iff)

lemma ids_plain [simp]:
  "ids (s\<lparr>todoInput := v\<rparr>) = ids s" "ids (s\<lparr>isOnline := b\<rparr>) = ids s"
  "ids (s\<lparr>ls_full := b\<rparr>) = ids s" "ids (s\<lparr>editingId := e\<rparr>) = ids s"
  "ids (s\<lparr>inflight := fl\<rparr>) = ids s" "ids (s\<lparr>api_log := l\<rparr>) = ids s"
  "ids (s\<lparr>api_issued := l\<rparr>) = ids s" "ids (s\<lparr>syncIndicator := b\<rparr>) = ids s"
  by (simp_all add: ids_def)

lemma ids_blocks [simp]:
  "ids (saveTodos s) = ids s" "ids (savePendingSync s) = ids s"
  "ids (addToPendingSync r a d s) = ids s" "ids (call_unawaited a d s) = ids s"
  "ids (drain_completed s) = ids s" "ids (drain_failed s) = ids s"
  "ids (iterate arr i s) = ids s"
  by (simp_all add: ids_def)

lemma ids_syncData [simp]: "ids (syncData s) = ids s"
  by (simp add: syncData_def showSyncIndicator_def)

lemma ids_settle [simp]: "ids (settle k out s) = ids s"
  by (simp add: settle_def Let_def split: inflight.split outcome.split)
     (simp add: ids_def)

lemma ids_addTodo:
  "allocated s \<Longrightarrow>
   ids (addTodo r s) = (if trim (todoInput s) = [] then ids s else now r # ids s)"
  by (auto simp: addTodo_def Let_def ids_def allocated_def)

lemma ids_toggleTodo [simp]: "ids (toggleTodo i r s) = ids s"
  by (auto simp: toggleTodo_def Let_def ids_def split: option.split)

lemma ids_saveEdit [simp]: "ids (saveEdit i v r s) = ids s"
  by (auto simp: saveEdit_def Let_def ids_def split: option.split)

lemma ids_deleteTodo: "ids (deleteTodo i r s) = filter (\<lambda>j. j \<noteq> i) (ids s)"
proof (cases "find_todo (heap s) (todos s) i")
  case None
  then have "i \<notin> set (ids s)"
    by (auto dest: find_todo_None simp: ids_def)
  then have "filter (\<lambda>j. j \<noteq> i) (ids s) = ids s"
    by (auto intro: filter_True)
  with None show ?thesis by (simp add: deleteTodo_def)
next
  case (Some a)
  then show ?thesis
    by (simp add: deleteTodo_def Let_def ids_def filter_map comp_def)
qed

lemma allocated_step: "allocated s \<Longrightarrow> allocated (step s ev)"
  by (cases ev)
     (auto simp: allocated_def addTodo_def toggleTodo_def deleteTodo_def saveEdit_def Let_def
        startEdit_def cancelEdit_def browser_online_def browser_offline_def
        doConnectivityCheck_def syncData_def showSyncIndicator_def settle_def
        split: option.split inflight.split outcome.split)

lemma ids_step:
  "allocated s \<Longrightarrow>
   ids (step s ev) =
     (case ev of
        AddClick r \<Rightarrow> if trim (todoInput s) = [] then ids s else now r # ids s
      | DeleteClick i r \<Rightarrow> filter (\<lambda>j. j \<noteq> i) (ids s)
      | _ \<Rightarrow> ids s)"
  by (cases ev)
     (simp_all add: ids_addTodo ids_deleteTodo startEdit_def cancelEdit_def
        browser_online_def browser_offline_def doConnectivityCheck_def)

lemma sorted_desc_distinct: "sorted_wrt (\<lambda>i j. j < i) xs \<Longrightarrow> distinct (xs :: int list)"
  by (induction xs) auto

lemma run_Cons: "run s (ev # evs) = run (step s ev) evs"
  by (simp add: run_def)

lemma ids_run_sorted:
  assumes "allocated s" and "sorted_wrt (\<lambda>i j. j < i) (ids s)"
    and "sorted_wrt (<) (created_at evs)"
    and "\<forall>i \<in> set (ids s). \<forall>t \<in> set (created_at evs). i < t"
  shows "sorted_wrt (\<lambda>i j. j < i) (ids (run s evs))"
  using assms
proof (induction evs arbitrary: s)
  case Nil
  then show ?case by (simp add: run_def)
next
  case (Cons ev evs)
  have al: "allocated (step s ev)"
    using Cons.prems(1) by (rule allocated_step)
  show ?case
  proof (cases ev)
    case (AddClick r)
    with Cons.prems have later: "\<forall>t \<in> set (created_at evs). now r < t"
      and below: "\<forall>i \<in> set (ids s). i < now r"
      and rest: "sorted_wrt (<) (created_at evs)"
      and old: "\<forall>i \<in> set (ids s). \<forall>t \<in> set (created_at evs). i < t"
      by simp_all
    have "sorted_wrt (\<lambda>i j. j < i) (ids (step s ev))"
      using Cons.prems(1,2) below by (simp add: AddClick ids_addTodo)
    moreover have "\<forall>i \<in> set (ids (step s ev)). \<forall>t \<in> set (created_at evs). i < t"
      using Cons.prems(1) later old by (simp add: AddClick ids_addTodo)
    ultimately show ?thesis
      using Cons.IH [OF al _ rest] by (simp add: run_Cons)
  next
    case (DeleteClick i r)
    with Cons.prems have rest: "sorted_wrt (<) (created_at evs)"
      and old: "\<forall>i \<in> set (ids s). \<forall>t \<in> set (created_at evs). i < t"
      by simp_all
    have "sorted_wrt (\<lambda>i j. j < i) (ids (step s ev))"
      using Cons.prems(1,2) by (simp add: DeleteClick ids_deleteTodo sorted_wrt_filter)
    moreover have "\<forall>i \<in> set (ids (step s ev)). \<forall>t \<in> set (created_at evs). i < t"
      using Cons.prems(1) old by (simp add: DeleteClick ids_deleteTodo)
    ultimately show ?thesis
      using Cons.IH [OF al _ rest] by (simp add: run_Cons)
  qed (use Cons.prems Cons.IH [OF al] in
      \<open>simp_all add: run_Cons startEdit_def cancelEdit_def browser_online_def
         browser_offline_def doConnectivityCheck_def\<close>)
qed

text \<open>
  C6, as the code has it. The id of a task is the \<open>Date.now()\<close> reading of the
  click that created it. When the readings of successive clicks on the add button
  are strictly increasing, then in every state the program reaches from a fresh
  start, whatever the events and their order, the ids of the collection are
  pairwise distinct and strictly decreasing from the front (most recent first).
\<close>

theorem ids_unique_when_clock_increases:
  assumes "sorted_wrt (<) (created_at evs)"
  shows "distinct (ids (run (fresh online) evs)) \<and>
         sorted_wrt (\<lambda>i j. j < i) (ids (run (fresh online) evs))"
proof -
  have "allocated (fresh online)" and "ids (fresh online) = []"
    by (simp_all add: allocated_def ids_def fresh_def)
  with assms have "sorted_wrt (\<lambda>i j. j < i) (ids (run (fresh online) evs))"
    by (intro ids_run_sorted) simp_all
  then show ?thesis
    by (simp add: sorted_desc_distinct)
qed

theorem ids_unique_when_clock_increases_witness:
  "sorted_wrt (<) (created_at [TypeInput [0x61], AddClick (readings_at 1000),
                               TypeInput [0x62], AddClick (readings_at 2000)]) \<and>
   ids (run (fresh True) [TypeInput [0x61], AddClick (readings_at 1000),
                          TypeInput [0x62], AddClick (readings_at 2000)]) = [2000, 1000] \<and>
   distinct (ids (run (fresh True) [TypeInput [0x61], AddClick (readings_at 1000),
                                    TypeInput [0x62], AddClick (readings_at 2000)]))"
proof -
  let ?evs = "[TypeInput [0x61], AddClick (readings_at 1000),
               TypeInput [0x62], AddClick (readings_at 2000)]"
  have c: "sorted_wrt (<) (created_at ?evs)"
    by (simp add: readings_at_def)
  have i: "ids (run (fresh True) ?evs) = [2000, 1000]"
    by (simp add: run_def fresh_def addTodo_def trim_def is_whitespace_def Let_def
        readings_at_def ids_def saveTodos_def call_unawaited_def connectivity_status_def)
  from ids_unique_when_clock_increases [OF c, of True] c i show ?thesis
    by simp
qed

text \<open>
  C6 as stated fails: nothing but the clock keeps ids apart. Two tasks added at
  the same reading of \<open>Date.now()\<close> are two todo objects with the same id.
\<close>

theorem same_millisecond_same_id:
  "ids (run (fresh True) [TypeInput [0x61], AddClick (readings_at 1000),
                          TypeInput [0x62], AddClick (readings_at 1000)]) = [1000, 1000] \<and>
   todos (run (fresh True) [TypeInput [0x61], AddClick (readings_at 1000),
                            TypeInput [0x62], AddClick (readings_at 1000)]) = [1, 0] \<and>
   \<not> distinct (ids (run (fresh True) [TypeInput [0x61], AddClick (readings_at 1000),
                                      TypeInput [0x62], AddClick (readings_at 1000)]))"
  by (simp add: run_def fresh_def addTodo_def trim_def is_whitespace_def Let_def
      readings_at_def ids_def saveTodos_def call_unawaited_def connectivity_status_def)

section \<open>Between drains\<close>

lemma not_awaiting: "\<forall>c \<in> set (inflight s). \<not> is_drain c \<Longrightarrow> \<not> awaiting s"
proof (cases "rev (inflight s)")
  case Nil
  then show ?thesis by (simp add: awaiting_def)
next
  case (Cons c cs)
  assume no: "\<forall>c \<in> set (inflight s). \<not> is_drain c"
  from Cons have "c \<in> set (inflight s)"
    by (metis list.set_intros(1) set_rev)
  with no have "\<not> is_drain c" by blast
  with Cons show ?thesis
    by (cases c) (simp_all add: awaiting_def)
qed

lemma resume_all_not_awaiting: "\<not> awaiting s \<Longrightarrow> resume_all n outs s = s"
  by (cases outs) simp_all

lemma queue_syncData [simp]: "queue (syncData s) = queue s"
  by (simp add: syncData_def iterate_def Let_def showSyncIndicator_def queue_def)

lemma syncData_run_client:
  "syncData_run (client_outcomes (queue s)) s =
     (if isOnline s \<and> queue s \<noteq> [] then
        drain_completed
          (s\<lparr>syncIndicator := True,
             api_log := api_log s @ map call_entry (queue s),
             heap := foldl (mark_synced (todos s)) (heap s) (queue s),
             api_issued := api_issued s @ map call_entry (queue s)\<rparr>)
      else s)"
proof (cases "isOnline s \<and> queue s \<noteq> []")
  case True
  then have on: "isOnline s" and ne: "queue s \<noteq> []" by simp_all
  have len: "length (replicate (length (queue s)) \<lparr>success = True\<rparr>) = length (queue s)"
    by simp
  from syncData_run_completed [OF on ne len, of "[]"] True show ?thesis
    by (simp add: client_outcomes_fulfilled)
next
  case False
  then have "syncData s = s" by (auto simp: syncData_def)
  then have "syncData_run (client_outcomes (queue s)) s = s"
    by (simp add: syncData_run_def resume_all_idle)
  with False show ?thesis by auto
qed

lemma step_quiet_sync:
  "inflight t = inflight s \<Longrightarrow>
   resume_all (length (inflight s)) (client_outcomes (queue t)) (syncData t) =
     syncData_run (client_outcomes (queue t)) t"
  by (simp add: syncData_run_def)

subsection \<open>What the invariant needs of a heap\<close>

lemma same_ids_data_id:
  "\<forall>b. id_t (h' b) = id_t (h b) \<Longrightarrow> data_id h' d = data_id h d"
  by (cases d) simp_all

lemma distinct_ids_inj:
  assumes "distinct (ids s)" and "a \<in> set (todos s)" and "b \<in> set (todos s)"
    and "id_t (heap s a) = id_t (heap s b)"
  shows "a = b"
proof -
  from assms(1) have "inj_on (\<lambda>a. id_t (heap s a)) (set (todos s))"
    by (simp add: ids_def distinct_map)
  with assms(2-4) show ?thesis
    by (auto dest: inj_onD)
qed

lemma two_statuses: "x \<noteq> Pending \<longleftrightarrow> x = Synced"
  by (cases x) simp_all

lemma wellformed_online [simp]: "wellformed (s\<lparr>isOnline := b\<rparr>) = wellformed s"
  by (simp add: wellformed_def allocated_def refs_allocated_def status_consistent_def
      queue_ids_def)

text \<open>A drain that runs to its end.\<close>

lemma drained_settled:
  assumes wf: "wellformed s"
  shows "settled (syncData_run (client_outcomes (queue s)) s)"
proof (cases "isOnline s \<and> queue s \<noteq> []")
  case False
  with wf show ?thesis
    by (auto simp: syncData_run_client settled_def)
next
  case True
  let ?h = "foldl (mark_synced (todos s)) (heap s) (queue s)"
  let ?s' = "syncData_run (client_outcomes (queue s)) s"
  have run: "?s' = drain_completed
          (s\<lparr>syncIndicator := True,
             api_log := api_log s @ map call_entry (queue s),
             heap := ?h,
             api_issued := api_issued s @ map call_entry (queue s)\<rparr>)"
    using True by (simp add: syncData_run_client)
  have f: "todos ?s' = todos s" "heap ?s' = ?h" "queue ?s' = []"
    "next_addr ?s' = next_addr s" "inflight ?s' = inflight s"
    unfolding run by simp_all
  have ids: "ids ?s' = ids s"
    by (simp add: ids_def f)
  have synced: "syncStatus (?h a) = Synced" if a: "a \<in> set (todos s)" for a
  proof (cases "id_t (heap s a) \<in> set (queue_ids s)")
    case False
    with wf a have "syncStatus (heap s a) \<noteq> Pending"
      by (simp add: wellformed_def status_consistent_def)
    then have "syncStatus (heap s a) = Synced"
      by (simp add: two_statuses)
    then show ?thesis by (rule fold_keeps)
  next
    case True
    then obtain item where item: "item \<in> set (queue s)"
      and id: "data_id (heap s) (data item) = id_t (heap s a)"
      by (auto simp: queue_ids_def)
    from wf a have nz: "id_t (heap s a) \<noteq> 0"
      by (auto simp: wellformed_def ids_def)
    have "find_todo (heap s) (todos s) (id_t (heap s a)) = Some a"
    proof (cases "find_todo (heap s) (todos s) (id_t (heap s a))")
      case None
      with a show ?thesis
        by (auto dest!: find_todo_None)
    next
      case (Some b)
      then have "b \<in> set (todos s)" and "id_t (heap s b) = id_t (heap s a)"
        by (auto dest: find_todo_Some)
      with wf a have "b = a"
        by (auto simp: wellformed_def intro: distinct_ids_inj)
      with Some show ?thesis by simp
    qed
    with id nz have "matched_todo (heap s) (todos s) item = Some a"
      by (simp add: matched_todo_def)
    with item show ?thesis by (rule fold_marks)
  qed
  have "allocated ?s'"
    using wf by (simp add: wellformed_def allocated_def f)
  moreover have "refs_allocated ?s'"
    by (simp add: refs_allocated_def f)
  moreover have "distinct (ids ?s')" "0 \<notin> set (ids ?s')"
    using wf by (simp_all add: wellformed_def ids)
  moreover have "\<forall>c \<in> set (inflight ?s'). \<not> is_drain c"
    using wf by (simp add: wellformed_def f)
  moreover have "status_consistent ?s'"
    using synced by (simp add: status_consistent_def queue_ids_def f)
  ultimately show ?thesis
    by (simp add: settled_def wellformed_def f)
qed

subsection \<open>The three shapes of a mutation\<close>

text \<open>A todo of the collection is updated in place (\<open>toggleTodo\<close>, \<open>saveEdit\<close>).\<close>

lemma update_settled:
  assumes st: "settled s" and a: "a \<in> set (todos s)"
    and heap: "heap s' = (heap s)(a := t')" and id: "id_t t' = id_t (heap s a)"
    and status: "syncStatus t' = connectivity_status (isOnline s)"
    and same: "todos s' = todos s" "next_addr s' = next_addr s" "isOnline s' = isOnline s"
    and queue: "queue s' = (if isOnline s then queue s else queue s @ [item])"
    and item: "data item = Todo a"
    and calls: "\<forall>c \<in> set (inflight s'). \<not> is_drain c"
  shows "settled s'"
proof -
  from st have wf: "wellformed s" and q: "isOnline s \<longrightarrow> queue s = []"
    by (simp_all add: settled_def)
  have idh: "\<forall>b. id_t (heap s' b) = id_t (heap s b)"
    by (simp add: heap id)
  then have did: "\<And>d. data_id (heap s') d = data_id (heap s) d"
    by (rule same_ids_data_id)
  have ids: "ids s' = ids s"
    by (simp add: ids_def same idh)
  have qids: "queue_ids s' =
      (if isOnline s then queue_ids s else queue_ids s @ [id_t (heap s a)])"
    by (simp add: queue_ids_def queue did item)
  have "status_consistent s'"
    unfolding status_consistent_def
  proof
    fix b
    assume "b \<in> set (todos s')"
    then have b: "b \<in> set (todos s)" by (simp add: same)
    show "(syncStatus (heap s' b) = Pending) = (id_t (heap s' b) \<in> set (queue_ids s'))"
    proof (cases "b = a")
      case True
      from q have "isOnline s \<longrightarrow> queue_ids s = []"
        by (simp add: queue_ids_def)
      with True show ?thesis
        by (auto simp: heap status connectivity_status_def qids id)
    next
      case False
      with wf a b have "id_t (heap s b) \<noteq> id_t (heap s a)"
        by (auto simp: wellformed_def dest: distinct_ids_inj)
      moreover from wf b have
        "(syncStatus (heap s b) = Pending) = (id_t (heap s b) \<in> set (queue_ids s))"
        by (simp add: wellformed_def status_consistent_def)
      ultimately show ?thesis
        using False by (simp add: heap qids)
    qed
  qed
  moreover have "refs_allocated s'"
    using wf a by (auto simp: wellformed_def refs_allocated_def allocated_def queue same item)
  moreover have "allocated s'"
    using wf by (simp add: wellformed_def allocated_def same)
  moreover have "isOnline s' \<longrightarrow> queue s' = []"
    using q by (simp add: same queue)
  ultimately show ?thesis
    using wf calls by (simp add: settled_def wellformed_def ids)
qed

text \<open>A todo is allocated and put at the front (\<open>addTodo\<close>).\<close>

lemma add_settled:
  assumes st: "settled s" and fresh_id: "i \<noteq> 0" "i \<notin> set (ids s)"
    and heap: "heap s' = (heap s)(next_addr s := t')" and id: "id_t t' = i"
    and status: "syncStatus t' = connectivity_status (isOnline s)"
    and same: "todos s' = next_addr s # todos s" "next_addr s' = Suc (next_addr s)"
      "isOnline s' = isOnline s"
    and queue: "queue s' = (if isOnline s then queue s else queue s @ [item])"
    and item: "data item = Todo (next_addr s)"
    and calls: "\<forall>c \<in> set (inflight s'). \<not> is_drain c"
  shows "settled s'"
proof -
  from st have wf: "wellformed s" and q: "isOnline s \<longrightarrow> queue s = []"
    by (simp_all add: settled_def)
  from wf have al: "\<forall>b \<in> set (todos s). b < next_addr s"
    and refs: "\<forall>x \<in> set (queue s). \<forall>b. data x = Todo b \<longrightarrow> b < next_addr s"
    by (simp_all add: wellformed_def allocated_def refs_allocated_def)
  have old: "heap s' b = heap s b" if "b < next_addr s" for b
    using that by (simp add: heap)
  have "map (\<lambda>b. id_t (heap s' b)) (todos s) = map (\<lambda>b. id_t (heap s b)) (todos s)"
    by (rule map_cong) (use al old in auto)
  then have ids: "ids s' = i # ids s"
    by (simp add: ids_def same) (simp add: heap id)
  have did: "data_id (heap s') (data x) = data_id (heap s) (data x)"
    if "x \<in> set (queue s)" for x
  proof (cases "data x")
    case (Todo b)
    with refs that have "b < next_addr s" by blast
    with Todo show ?thesis by (simp add: old)
  next
    case (IdOnly j)
    then show ?thesis by simp
  qed
  then have "map (\<lambda>x. data_id (heap s') (data x)) (queue s) = queue_ids s"
    by (simp add: queue_ids_def)
  then have qids: "queue_ids s' = (if isOnline s then queue_ids s else queue_ids s @ [i])"
    by (simp add: queue_ids_def queue item heap id)
  have "status_consistent s'"
    unfolding status_consistent_def
  proof
    fix b
    assume "b \<in> set (todos s')"
    then consider "b = next_addr s" | "b \<in> set (todos s)"
      by (auto simp: same)
    then show "(syncStatus (heap s' b) = Pending) = (id_t (heap s' b) \<in> set (queue_ids s'))"
    proof cases
      case 1
      from q have "isOnline s \<longrightarrow> queue_ids s = []"
        by (simp add: queue_ids_def)
      with 1 show ?thesis
        by (auto simp: heap status connectivity_status_def qids id)
    next
      case 2
      with al have lt: "b < next_addr s" by blast
      from 2 fresh_id(2) have "id_t (heap s b) \<noteq> i"
        by (auto simp: ids_def)
      moreover from wf 2 have
        "(syncStatus (heap s b) = Pending) = (id_t (heap s b) \<in> set (queue_ids s))"
        by (simp add: wellformed_def status_consistent_def)
      ultimately show ?thesis
        by (simp add: old [OF lt] qids)
    qed
  qed
  moreover have "refs_allocated s'"
    using refs by (auto simp: refs_allocated_def queue same item less_Suc_eq)
  moreover have "allocated s'"
    using al by (auto simp: allocated_def same less_Suc_eq)
  moreover have "isOnline s' \<longrightarrow> queue s' = []"
    using q by (simp add: same queue)
  moreover have "distinct (ids s')" "0 \<notin> set (ids s')"
    using wf fresh_id by (auto simp: wellformed_def ids)
  ultimately show ?thesis
    using calls by (simp add: settled_def wellformed_def)
qed

text \<open>The todos with an id leave the collection (\<open>deleteTodo\<close>).\<close>

lemma delete_settled:
  assumes st: "settled s"
    and same: "heap s' = heap s" "next_addr s' = next_addr s" "isOnline s' = isOnline s"
    and todos: "todos s' = filter (\<lambda>b. id_t (heap s b) \<noteq> i) (todos s)"
    and queue: "queue s' = (if isOnline s then queue s else queue s @ [item])"
    and item: "data item = IdOnly i"
    and calls: "\<forall>c \<in> set (inflight s'). \<not> is_drain c"
  shows "settled s'"
proof -
  from st have wf: "wellformed s" and q: "isOnline s \<longrightarrow> queue s = []"
    by (simp_all add: settled_def)
  have ids: "ids s' = filter (\<lambda>j. j \<noteq> i) (ids s)"
    by (simp add: ids_def same todos filter_map comp_def)
  have qids: "queue_ids s' = (if isOnline s then queue_ids s else queue_ids s @ [i])"
    by (simp add: queue_ids_def queue same item)
  have "status_consistent s'"
    using wf by (auto simp: wellformed_def status_consistent_def todos same qids)
  moreover have "refs_allocated s'"
    using wf by (auto simp: wellformed_def refs_allocated_def queue same item)
  moreover have "allocated s'"
    using wf by (simp add: wellformed_def allocated_def same todos)
  moreover have "isOnline s' \<longrightarrow> queue s' = []"
    using q by (simp add: same queue)
  moreover have "distinct (ids s')" "0 \<notin> set (ids s')"
    using wf by (simp_all add: wellformed_def ids)
  ultimately show ?thesis
    using calls by (simp add: settled_def wellformed_def)
qed

subsection \<open>The handlers\<close>

lemma queue_other_fields [simp]:
  "queue (s\<lparr>heap := h\<rparr>) = queue s" "queue (s\<lparr>todos := ts\<rparr>) = queue s"
  "queue (s\<lparr>next_addr := n\<rparr>) = queue s" "queue (s\<lparr>inflight := fl\<rparr>) = queue s"
  "queue (s\<lparr>api_log := l\<rparr>) = queue s" "queue (s\<lparr>api_issued := l\<rparr>) = queue s"
  "queue (s\<lparr>syncIndicator := b\<rparr>) = queue s" "queue (s\<lparr>notifications := ns\<rparr>) = queue s"
  by (simp_all add: queue_def)

lemma no_drain_append:
  "\<forall>c \<in> set fl. \<not> is_drain c \<Longrightarrow> \<forall>c \<in> set (fl @ [Loose a d]). \<not> is_drain c"
  by simp

lemma settled_calls: "settled s \<Longrightarrow> \<forall>c \<in> set (inflight s). \<not> is_drain c"
  by (simp add: settled_def wellformed_def)

lemma toggleTodo_settled:
  assumes "settled s"
  shows "settled (toggleTodo i r s)"
proof (cases "find_todo (heap s) (todos s) i")
  case None
  with assms show ?thesis by (simp add: toggleTodo_def)
next
  case (Some a)
  then have a: "a \<in> set (todos s)" by (auto dest: find_todo_Some)
  let ?item = "\<lparr>id_i = of_int (item_now r) + item_random r, action = Update, data = Todo a,
                timestamp = item_iso r\<rparr>"
  let ?t = "(heap s a)\<lparr>completed := \<not> completed (heap s a), lastModified := modified_iso r,
                       syncStatus := connectivity_status (isOnline s)\<rparr>"
  show ?thesis
  proof (rule update_settled [OF assms a, where t' = ?t and item = ?item])
    show "\<forall>c \<in> set (inflight (toggleTodo i r s)). \<not> is_drain c"
      using settled_calls [OF assms] Some by (simp add: toggleTodo_def Let_def)
  qed (simp_all add: toggleTodo_def Let_def Some)
qed

lemma saveEdit_settled:
  assumes "settled s"
  shows "settled (saveEdit i v r s)"
proof (cases "find_todo (heap s) (todos s) i")
  case None
  with assms show ?thesis by (simp add: saveEdit_def)
next
  case (Some a)
  then have a: "a \<in> set (todos s)" by (auto dest: find_todo_Some)
  let ?item = "\<lparr>id_i = of_int (item_now r) + item_random r, action = Update, data = Todo a,
                timestamp = item_iso r\<rparr>"
  let ?t = "(heap s a)\<lparr>text_t := trim v, lastModified := modified_iso r,
                       syncStatus := connectivity_status (isOnline s)\<rparr>"
  show ?thesis
  proof (cases "trim v = []")
    case True
    with assms Some show ?thesis by (simp add: saveEdit_def)
  next
    case False
    show ?thesis
    proof (rule update_settled [OF assms a, where t' = ?t and item = ?item])
      show "\<forall>c \<in> set (inflight (saveEdit i v r s)). \<not> is_drain c"
        using settled_calls [OF assms] Some False by (simp add: saveEdit_def Let_def)
    qed (simp_all add: saveEdit_def Let_def Some False)
  qed
qed

lemma deleteTodo_settled:
  assumes "settled s"
  shows "settled (deleteTodo i r s)"
proof (cases "find_todo (heap s) (todos s) i")
  case None
  with assms show ?thesis by (simp add: deleteTodo_def)
next
  case (Some a)
  let ?item = "\<lparr>id_i = of_int (item_now r) + item_random r, action = Delete,
                data = IdOnly i, timestamp = item_iso r\<rparr> :: nat syncItem"
  show ?thesis
  proof (rule delete_settled [OF assms, where i = i and item = ?item])
    show "\<forall>c \<in> set (inflight (deleteTodo i r s)). \<not> is_drain c"
      using settled_calls [OF assms] Some by (simp add: deleteTodo_def Let_def)
  qed (simp_all add: deleteTodo_def Let_def Some)
qed

lemma addTodo_settled:
  assumes "settled s" and "now r \<noteq> 0" and "now r \<notin> set (ids s)"
  shows "settled (addTodo r s)"
proof (cases "trim (todoInput s) = []")
  case True
  with assms show ?thesis by (simp add: addTodo_def)
next
  case False
  let ?item = "\<lparr>id_i = of_int (item_now r) + item_random r, action = Create,
                data = Todo (next_addr s), timestamp = item_iso r\<rparr>"
  let ?t = "\<lparr>id_t = now r, text_t = trim (todoInput s), completed = False,
             createdAt = created_iso r, lastModified = modified_iso r,
             syncStatus = connectivity_status (isOnline s)\<rparr>"
  show ?thesis
  proof (rule add_settled [OF assms, where t' = ?t and item = ?item])
    show "\<forall>c \<in> set (inflight (addTodo r s)). \<not> is_drain c"
      using settled_calls [OF assms(1)] False by (simp add: addTodo_def Let_def)
  qed (simp_all add: addTodo_def Let_def False)
qed

lemma settled_plain [simp]:
  "settled (s\<lparr>todoInput := v\<rparr>) = settled s"
  "settled (s\<lparr>ls_full := b\<rparr>) = settled s"
  "settled (s\<lparr>editingId := e\<rparr>) = settled s"
  by (simp_all add: settled_def wellformed_def allocated_def refs_allocated_def
      status_consistent_def queue_ids_def queue_def ids_def)

lemma settled_offline: "settled s \<Longrightarrow> settled (s\<lparr>isOnline := False\<rparr>)"
  by (simp add: settled_def)

lemma set_remove_nth: "set (remove_nth k xs) \<subseteq> set xs"
  by (auto simp: remove_nth_def dest: in_set_takeD in_set_dropD)

lemma settle_settled:
  assumes "settled s"
  shows "settled (settle k out s)"
proof (cases "k < length (inflight s)")
  case False
  with assms show ?thesis by (simp add: settle_def)
next
  case True
  with settled_calls [OF assms] have "\<not> is_drain (inflight s ! k)" by simp
  then obtain a d where call: "inflight s ! k = Loose a d"
    by (cases "inflight s ! k") simp_all
  let ?fl = "remove_nth k (inflight s)"
  have "\<forall>c \<in> set ?fl. \<not> is_drain c"
    using settled_calls [OF assms] set_remove_nth [of k "inflight s"] by blast
  then have "settled (s\<lparr>inflight := ?fl\<rparr>)"
    and "settled (s\<lparr>inflight := ?fl, api_log := api_log s @ [(a, d)]\<rparr>)"
    using assms
    by (simp_all add: settled_def wellformed_def allocated_def refs_allocated_def
        status_consistent_def queue_ids_def queue_def ids_def)
  with True call show ?thesis
    by (simp add: settle_def Let_def split: outcome.split)
qed

subsection \<open>Events followed by their drain\<close>

lemma step_quiet_settled:
  assumes st: "settled s"
    and clock: "\<And>r. ev = AddClick r \<Longrightarrow> now r \<noteq> 0 \<and> now r \<notin> set (ids s)"
  shows "settled (step_quiet s ev)"
proof -
  from st have wf: "wellformed s" by (simp add: settled_def)
  have quiet: "step_quiet s ev = step s ev" if "settled (step s ev)"
  proof -
    from that have "\<not> awaiting (step s ev)"
      by (intro not_awaiting settled_calls)
    then show ?thesis
      by (simp add: step_quiet_def resume_all_not_awaiting)
  qed
  have sync: "settled (resume_all (length (inflight s))
                (client_outcomes (queue (syncData t))) (syncData t))"
    if "inflight t = inflight s" and "wellformed t" for t
    using that by (simp add: step_quiet_sync drained_settled)
  show ?thesis
  proof (cases ev)
    case (TypeInput v)
    with st quiet show ?thesis by simp
  next
    case (AddClick r)
    with st clock quiet show ?thesis by (simp add: addTodo_settled)
  next
    case (ToggleChange i r)
    with st quiet show ?thesis by (simp add: toggleTodo_settled)
  next
    case (DeleteClick i r)
    with st quiet show ?thesis by (simp add: deleteTodo_settled)
  next
    case (StartEditClick i)
    with st quiet show ?thesis by (simp add: startEdit_def)
  next
    case (SaveClick i v r)
    with st quiet show ?thesis by (simp add: saveEdit_settled)
  next
    case CancelClick
    with st quiet show ?thesis by (simp add: cancelEdit_def)
  next
    case BrowserOnline
    with sync [of "s\<lparr>isOnline := True\<rparr>"] wf show ?thesis
      by (simp add: step_quiet_def browser_online_def)
  next
    case BrowserOffline
    with st quiet show ?thesis by (simp add: browser_offline_def settled_offline)
  next
    case (ProbeAnswered ok)
    show ?thesis
    proof (cases "ok \<and> \<not> isOnline s")
      case True
      with ProbeAnswered sync [of "s\<lparr>isOnline := True\<rparr>"] wf show ?thesis
        by (simp add: step_quiet_def doConnectivityCheck_def)
    next
      case False
      with ProbeAnswered st quiet show ?thesis
        by (auto simp: doConnectivityCheck_def)
    qed
  next
    case ProbeThrew
    with st quiet show ?thesis by (simp add: doConnectivityCheck_def settled_offline)
  next
    case SyncClick
    with sync [of s] wf show ?thesis
      by (simp add: step_quiet_def)
  next
    case (DelayElapsed k)
    with st quiet show ?thesis by (simp add: settle_settled)
  next
    case (StorageFull b)
    with st quiet show ?thesis by simp
  qed
qed

lemma ids_resume_all [simp]: "ids (resume_all n outs s) = ids s"
  by (induction outs arbitrary: s) simp_all

lemma ids_step_quiet:
  "allocated s \<Longrightarrow>
   set (ids (step_quiet s ev)) \<subseteq>
     set (ids s) \<union> (case ev of AddClick r \<Rightarrow> {now r} | _ \<Rightarrow> {})"
  by (cases ev)
     (auto simp: step_quiet_def Let_def ids_addTodo ids_deleteTodo startEdit_def
        cancelEdit_def browser_online_def browser_offline_def doConnectivityCheck_def split: if_splits)

lemma run_quiet_Cons: "run_quiet s (ev # evs) = run_quiet (step_quiet s ev) evs"
  by (simp add: run_quiet_def)

lemma run_quiet_settled:
  assumes "settled s" and "distinct (created_at evs)" and "0 \<notin> set (created_at evs)"
    and "set (ids s) \<inter> set (created_at evs) = {}"
  shows "settled (run_quiet s evs)"
  using assms
proof (induction evs arbitrary: s)
  case Nil
  then show ?case by (simp add: run_quiet_def)
next
  case (Cons ev evs)
  from Cons.prems(1) have al: "allocated s"
    by (simp add: settled_def wellformed_def)
  have clock: "now r \<noteq> 0 \<and> now r \<notin> set (ids s)" if "ev = AddClick r" for r
    using that Cons.prems by auto
  have st: "settled (step_quiet s ev)"
    using Cons.prems(1) clock by (rule step_quiet_settled)
  have rest: "distinct (created_at evs)" "0 \<notin> set (created_at evs)"
    using Cons.prems(2,3) by (cases ev; simp)+
  have "set (ids (step_quiet s ev)) \<inter> set (created_at evs) = {}"
    using ids_step_quiet [OF al, of ev] Cons.prems(2,4) by (cases ev) auto
  with st rest show ?case
    by (simp add: run_quiet_Cons Cons.IH)
qed

lemma fresh_settled: "settled (fresh online)"
  by (simp add: settled_def wellformed_def allocated_def refs_allocated_def
      status_consistent_def ids_def queue_def fresh_def)

text \<open>
  C2, as the code has it. The program starts fresh (no task, empty queue), every
  drain an event starts runs to its end before the next event is handled, and
  the \<open>Date.now()\<close> readings of the clicks on the add button are pairwise
  distinct and not zero. Then in every state between events, a task of the
  collection is pending exactly when the queue holds an entry whose \<open>data.id\<close>
  is the task's id. Create, toggle, edit, delete and the drain, online or
  offline, keep this.
\<close>

theorem status_consistent_between_drains:
  assumes "distinct (created_at evs)" and "0 \<notin> set (created_at evs)"
  shows "status_consistent (run_quiet (fresh online) evs)"
proof -
  have "ids (fresh online) = []"
    by (simp add: ids_def fresh_def)
  with assms have "settled (run_quiet (fresh online) evs)"
    by (intro run_quiet_settled fresh_settled) simp_all
  then show ?thesis
    by (simp add: settled_def wellformed_def)
qed

lemmas eval_defs =
  run_def run_quiet_def step_quiet_def fresh_def readings_at_def addTodo_def toggleTodo_def
  trim_def is_whitespace_def Let_def find_todo_def queue_def addToPendingSync_def
  savePendingSync_def saveTodos_def call_unawaited_def connectivity_status_def
  browser_online_def browser_offline_def syncData_def showSyncIndicator_def iterate_def
  settle_def remove_nth_def call_of_def simulateApiCall_def mark_synced_def
  matched_todo_def drain_completed_def showNotification_def client_outcomes_def
  awaiting_def status_consistent_def queue_ids_def

theorem status_consistent_between_drains_witness:
  "distinct (created_at [TypeInput [0x61], AddClick (readings_at 1000),
                         ToggleChange 1000 (readings_at 1500)]) \<and>
   0 \<notin> set (created_at [TypeInput [0x61], AddClick (readings_at 1000),
                         ToggleChange 1000 (readings_at 1500)]) \<and>
   status_consistent
     (run_quiet (fresh False) [TypeInput [0x61], AddClick (readings_at 1000),
                               ToggleChange 1000 (readings_at 1500)]) \<and>
   syncStatus
     (heap (run_quiet (fresh False) [TypeInput [0x61], AddClick (readings_at 1000),
                                     ToggleChange 1000 (readings_at 1500)]) 0) = Pending \<and>
   queue_ids
     (run_quiet (fresh False) [TypeInput [0x61], AddClick (readings_at 1000),
                               ToggleChange 1000 (readings_at 1500)]) = [1000, 1000] \<and>
   status_consistent
     (run_quiet (fresh False) [TypeInput [0x61], AddClick (readings_at 1000),
                               ToggleChange 1000 (readings_at 1500), BrowserOnline]) \<and>
   syncStatus
     (heap (run_quiet (fresh False) [TypeInput [0x61], AddClick (readings_at 1000),
                                     ToggleChange 1000 (readings_at 1500), BrowserOnline]) 0) =
     Synced \<and>
   queue_ids
     (run_quiet (fresh False) [TypeInput [0x61], AddClick (readings_at 1000),
                               ToggleChange 1000 (readings_at 1500), BrowserOnline]) = []"
proof -
  let ?evs = "[TypeInput [0x61], AddClick (readings_at 1000),
               ToggleChange 1000 (readings_at 1500)]"
  let ?evs' = "[TypeInput [0x61], AddClick (readings_at 1000),
                ToggleChange 1000 (readings_at 1500), BrowserOnline]"
  have c: "distinct (created_at ?evs)" "0 \<notin> set (created_at ?evs)"
    and c': "distinct (created_at ?evs')" "0 \<notin> set (created_at ?evs')"
    by (simp_all add: readings_at_def)
  have v: "syncStatus (heap (run_quiet (fresh False) ?evs) 0) = Pending"
    "queue_ids (run_quiet (fresh False) ?evs) = [1000, 1000]"
    by (simp_all add: eval_defs)
  have v': "syncStatus (heap (run_quiet (fresh False) ?evs') 0) = Synced"
    "queue_ids (run_quiet (fresh False) ?evs') = []"
    by (simp_all add: eval_defs)
  from status_consistent_between_drains [OF c, of False]
    status_consistent_between_drains [OF c', of False] c v v'
  show ?thesis by simp
qed

text \<open>
  C2 as stated fails while a drain is in progress. A task is added offline and the
  browser reports online: the drain waits for its first call, and the statuses
  still agree with the queue. The task is toggled before the call returns:
  \<open>toggleTodo\<close> sets it to synced, because the app is online, while its
  \<open>create\<close> entry is still in the queue. Likewise, with two tasks queued, once
  the first call has returned the first task is synced and both entries are
  still in the queue.
\<close>

theorem status_inconsistent_during_drain:
  "status_consistent
     (run (fresh False) [TypeInput [0x61], AddClick (readings_at 1000), BrowserOnline]) \<and>
   drains_running
     (run (fresh False) [TypeInput [0x61], AddClick (readings_at 1000), BrowserOnline]) = 1 \<and>
   syncStatus
     (heap (run (fresh False) [TypeInput [0x61], AddClick (readings_at 1000), BrowserOnline,
                               ToggleChange 1000 (readings_at 1500)]) 0) = Synced \<and>
   queue_ids
     (run (fresh False) [TypeInput [0x61], AddClick (readings_at 1000), BrowserOnline,
                         ToggleChange 1000 (readings_at 1500)]) = [1000] \<and>
   \<not> status_consistent
     (run (fresh False) [TypeInput [0x61], AddClick (readings_at 1000), BrowserOnline,
                         ToggleChange 1000 (readings_at 1500)]) \<and>
   \<not> status_consistent
     (run (fresh False) [TypeInput [0x61], AddClick (readings_at 1000),
                         TypeInput [0x62], AddClick (readings_at 2000),
                         BrowserOnline, DelayElapsed 0])"
  by (simp add: eval_defs drains_running_def)

end
